theory Spec2Isabelle
  imports Main "HOL-Library.AList"
begin

section \<open>Data model\<close>

text \<open>
  A \<open>Station\<close> object of \<^verbatim>\<open>project.py\<close>. Python objects have identity and the fields
  \<open>prev\<close> and \<open>next\<close> are references to other objects, so the objects live in a heap
  (a list, indexed by address, in order of creation) and a reference is an address.
  The field \<open>id\<close> is \<open>station_id\<close> here and \<open>next\<close> is \<open>next_station\<close>, the names the
  source uses for the corresponding local variables.
\<close>

record Station =
  station_id :: int
  line :: string
  name :: string
  transfer_ids :: "int list"
  prev :: "nat option"
  next_station :: "nat option"

text \<open>
  \<open>SubwaySystem\<close>: the two dictionaries of the class. A Python dictionary keeps its
  keys in insertion order, hence association lists; \<open>AList.update\<close> overwrites the
  value of a key already there and appends a new key at the end, as \<open>d[k] = v\<close> does.
\<close>

record SubwaySystem =
  heap :: "Station list"
  stations :: "(int \<times> nat) list"
  lines :: "(string \<times> nat list) list"

text \<open>
  One row of the table after the conversions at the top of the loop of
  \<open>load_from_csv\<close>: \<open>(station_id, line, name, transfer_ids)\<close>.
\<close>

type_synonym row = "int \<times> string \<times> string \<times> int list"

datatype error = KeyError | IndexError

definition SubwaySystem_init :: SubwaySystem where
  "SubwaySystem_init = \<lparr>heap = [], stations = [], lines = []\<rparr>"

section \<open>Loading\<close>

text \<open>The body of the first loop of \<open>load_from_csv\<close>, for one row.\<close>

definition add_row :: "SubwaySystem \<Rightarrow> row \<Rightarrow> SubwaySystem" where
  "add_row self r =
     (case r of (sid, l, nm, tids) \<Rightarrow>
        let station = length (heap self);
            lines1 = (if l \<notin> set (map fst (lines self))
                      then AList.update l [] (lines self) else lines self)
        in \<lparr>heap = heap self @
                 [\<lparr>station_id = sid, line = l, name = nm, transfer_ids = tids,
                   prev = None, next_station = None\<rparr>],
            stations = AList.update sid station (stations self),
            lines = AList.map_entry l (\<lambda>line_stations. line_stations @ [station]) lines1\<rparr>)"

text \<open>The body of the inner loop that sets \<open>prev\<close> and \<open>next\<close>, at index \<open>i\<close>.\<close>

definition link_at :: "nat list \<Rightarrow> nat \<Rightarrow> Station list \<Rightarrow> Station list" where
  "link_at line_stations i h =
     (let h1 = (if 0 < i
                then h[line_stations ! i :=
                         (h ! (line_stations ! i))\<lparr>prev := Some (line_stations ! (i - 1))\<rparr>]
                else h)
      in if i < length line_stations - 1
         then h1[line_stations ! i :=
                   (h1 ! (line_stations ! i))\<lparr>next_station := Some (line_stations ! (i + 1))\<rparr>]
         else h1)"

definition link_line :: "nat list \<Rightarrow> Station list \<Rightarrow> Station list" where
  "link_line line_stations h = fold (link_at line_stations) [0..<length line_stations] h"

definition load_from_csv :: "SubwaySystem \<Rightarrow> row list \<Rightarrow> SubwaySystem" where
  "load_from_csv self rows =
     (let s1 = fold (\<lambda>r s. add_row s r) rows self
      in s1\<lparr>heap := fold link_line (map snd (lines s1)) (heap s1)\<rparr>)"

section \<open>Path signature\<close>

text \<open>\<open>str\<close> on an integer: its decimal digits, after a minus sign when negative.\<close>

function str_nat :: "nat \<Rightarrow> string" where
  "str_nat n = (if n < 10 then [''0123456789'' ! n]
                else str_nat (n div 10) @ [''0123456789'' ! (n mod 10)])"
  by pat_completeness auto
termination
  by (relation "measure (\<lambda>n. n)") auto

declare str_nat.simps [simp del]

definition str_int :: "int \<Rightarrow> string" where
  "str_int i = (if i < 0 then CHR ''-'' # str_nat (nat (- i)) else str_nat (nat i))"

fun join :: "string \<Rightarrow> string list \<Rightarrow> string" where
  "join sep [] = []"
| "join sep [x] = x"
| "join sep (x # y # ys) = x @ sep @ join sep (y # ys)"

text \<open>
  The loop of \<open>get_path_signature\<close>: one step on the list \<open>processed_ids\<close>, and the
  whole loop over the ids of the path. \<open>processed_ids[-1]\<close> and \<open>processed_ids[-2]\<close>
  are only read when the list has two entries at least (\<open>or\<close> is short-circuit).
\<close>

definition signature_step :: "int list \<Rightarrow> int \<Rightarrow> int list" where
  "signature_step processed sid =
     (if length processed < 2
         \<or> sid \<noteq> processed ! (length processed - 1)
         \<or> sid \<noteq> processed ! (length processed - 2)
      then processed @ [sid] else processed)"

definition processed_ids :: "int list \<Rightarrow> int list" where
  "processed_ids ids = foldl signature_step [] ids"

definition path_ids :: "SubwaySystem \<Rightarrow> (nat \<times> bool) list \<Rightarrow> int list" where
  "path_ids self path = map (\<lambda>(station, _). station_id (heap self ! station)) path"

definition get_path_signature :: "SubwaySystem \<Rightarrow> (nat \<times> bool) list \<Rightarrow> string" where
  "get_path_signature self path = join '','' (map str_int (processed_ids (path_ids self path)))"

section \<open>Search\<close>

text \<open>The four variables of \<open>find_route\<close> that the closure \<open>dfs\<close> mutates.\<close>

record search_state =
  visited :: "int set"
  current_path :: "(nat \<times> bool) list"
  all_paths :: "(nat \<times> bool) list list"
  path_signatures :: "string set"

text \<open>
  A computation returns \<open>None\<close> when the recursion went deeper than the depth it was
  given, \<open>Some (Inl e)\<close> when it raised \<open>e\<close>, and \<open>Some (Inr x)\<close> when it returned \<open>x\<close>.
\<close>

type_synonym 'a outcome = "(error + 'a) option"

definition and_then :: "'a outcome \<Rightarrow> ('a \<Rightarrow> 'b outcome) \<Rightarrow> 'b outcome" where
  "and_then m f = (case m of None \<Rightarrow> None | Some (Inl e) \<Rightarrow> Some (Inl e) | Some (Inr x) \<Rightarrow> f x)"

fun for_each :: "('a \<Rightarrow> 's \<Rightarrow> 's outcome) \<Rightarrow> 'a list \<Rightarrow> 's \<Rightarrow> 's outcome" where
  "for_each body [] s = Some (Inr s)"
| "for_each body (x # xs) s = and_then (body x s) (for_each body xs)"

text \<open>The branch \<open>current.id == target.id\<close>.\<close>

definition accept :: "SubwaySystem \<Rightarrow> search_state \<Rightarrow> search_state" where
  "accept self st =
     (let path_sig = get_path_signature self (current_path st)
      in if path_sig \<notin> path_signatures st
         then st\<lparr>path_signatures := insert path_sig (path_signatures st),
                 all_paths := all_paths st @ [current_path st]\<rparr>
         else st)"

text \<open>
  The loop over \<open>current.transfer_ids\<close> that fills \<open>target_line_transfers\<close> and
  \<open>other_transfers\<close>; \<open>self.stations[transfer_id]\<close> raises \<open>KeyError\<close> on an unknown id.
\<close>

fun partition_transfers ::
  "SubwaySystem \<Rightarrow> Station \<Rightarrow> int set \<Rightarrow> int list \<Rightarrow> nat list \<times> nat list
     \<Rightarrow> error + nat list \<times> nat list" where
  "partition_transfers self target vis [] acc = Inr acc"
| "partition_transfers self target vis (transfer_id # rest) (target_line_transfers, other_transfers) =
     (case map_of (stations self) transfer_id of
        None \<Rightarrow> Inl KeyError
      | Some transfer_station \<Rightarrow>
          if station_id (heap self ! transfer_station) \<notin> vis
          then if line (heap self ! transfer_station) = line target
               then partition_transfers self target vis rest
                      (target_line_transfers @ [transfer_station], other_transfers)
               else partition_transfers self target vis rest
                      (target_line_transfers, other_transfers @ [transfer_station])
          else partition_transfers self target vis rest (target_line_transfers, other_transfers))"

text \<open>
  The loop \<open>for next_station in [current.prev, current.next]\<close>, which occurs twice;
  \<open>call\<close> is the recursive call \<open>dfs(next_station, target, is_transfer)\<close>.
\<close>

definition explore_neighbours ::
  "(nat \<Rightarrow> bool \<Rightarrow> search_state \<Rightarrow> search_state outcome) \<Rightarrow> SubwaySystem \<Rightarrow> Station
     \<Rightarrow> search_state \<Rightarrow> search_state outcome" where
  "explore_neighbours call self current st =
     for_each (\<lambda>next_station st.
                 case next_station of
                   None \<Rightarrow> Some (Inr st)
                 | Some n \<Rightarrow>
                     if station_id (heap self ! n) \<notin> visited st then call n False st
                     else Some (Inr st))
       [prev current, next_station current] st"

text \<open>The loop \<open>for transfer_station in ...: dfs(transfer_station, target, True)\<close>.\<close>

definition explore_transfers ::
  "(nat \<Rightarrow> bool \<Rightarrow> search_state \<Rightarrow> search_state outcome) \<Rightarrow> nat list
     \<Rightarrow> search_state \<Rightarrow> search_state outcome" where
  "explore_transfers call transfers st = for_each (\<lambda>transfer_station. call transfer_station True) transfers st"

text \<open>The \<open>else\<close> branch of \<open>dfs\<close>: what is explored from a stop that is not the target.\<close>

definition expand ::
  "(nat \<Rightarrow> bool \<Rightarrow> search_state \<Rightarrow> search_state outcome) \<Rightarrow> SubwaySystem \<Rightarrow> Station
     \<Rightarrow> Station \<Rightarrow> search_state \<Rightarrow> search_state outcome" where
  "expand call self current target st =
     (if line current = line target then explore_neighbours call self current st
      else
        case partition_transfers self target (visited st) (transfer_ids current) ([], []) of
          Inl e \<Rightarrow> Some (Inl e)
        | Inr (target_line_transfers, other_transfers) \<Rightarrow>
            if target_line_transfers \<noteq> [] then explore_transfers call target_line_transfers st
            else and_then (explore_transfers call other_transfers st)
                   (explore_neighbours call self current))"

text \<open>
  The last two statements of \<open>dfs\<close>: \<open>current_path.pop()\<close> raises \<open>IndexError\<close> on an
  empty list and \<open>visited.remove\<close> raises \<open>KeyError\<close> on an element that is not there.
\<close>

definition backtrack :: "Station \<Rightarrow> search_state \<Rightarrow> error + search_state" where
  "backtrack current st =
     (if current_path st = [] then Inl IndexError
      else if station_id current \<notin> visited st then Inl KeyError
      else Inr (st\<lparr>current_path := butlast (current_path st),
                  visited := visited st - {station_id current}\<rparr>))"

text \<open>
  The body of \<open>dfs\<close>, with the recursive call as the parameter \<open>call\<close>, and \<open>dfs\<close>
  itself. The first argument of \<open>dfs\<close> is the number of nested calls it may still make:
  \<open>dfs 0\<close> stands for a call that would exceed the allowed depth.
\<close>

definition dfs_body ::
  "(nat \<Rightarrow> bool \<Rightarrow> search_state \<Rightarrow> search_state outcome) \<Rightarrow> SubwaySystem
     \<Rightarrow> nat \<Rightarrow> nat \<Rightarrow> bool \<Rightarrow> search_state \<Rightarrow> search_state outcome" where
  "dfs_body call self current target is_transfer st =
     (if station_id (heap self ! current) \<in> visited st then Some (Inr st)
      else
        let st1 = st\<lparr>visited := insert (station_id (heap self ! current)) (visited st),
                     current_path := current_path st @ [(current, is_transfer)]\<rparr>
        in and_then
             (if station_id (heap self ! current) = station_id (heap self ! target)
              then Some (Inr (accept self st1))
              else expand call self (heap self ! current) (heap self ! target) st1)
             (\<lambda>st2. Some (backtrack (heap self ! current) st2)))"

primrec dfs ::
  "nat \<Rightarrow> SubwaySystem \<Rightarrow> nat \<Rightarrow> nat \<Rightarrow> bool \<Rightarrow> search_state \<Rightarrow> search_state outcome" where
  "dfs 0 self current target is_transfer st = None"
| "dfs (Suc depth) self current target is_transfer st =
     dfs_body (\<lambda>c. dfs depth self c target) self current target is_transfer st"

text \<open>
  \<open>next((s for s in line_stations if s.name == station), None)\<close>, and \<open>find_route\<close>;
  \<open>self.lines[...]\<close> raises \<open>KeyError\<close> on a line that is not a key, and both lookups
  come before the test \<open>if not start or not end\<close>.
\<close>

definition first_named :: "SubwaySystem \<Rightarrow> nat list \<Rightarrow> string \<Rightarrow> nat option" where
  "first_named self line_stations nm = List.find (\<lambda>s. name (heap self ! s) = nm) line_stations"

definition initial_state :: search_state where
  "initial_state = \<lparr>visited = {}, current_path = [], all_paths = [], path_signatures = {}\<rparr>"

definition find_route ::
  "nat \<Rightarrow> SubwaySystem \<Rightarrow> string \<Rightarrow> string \<Rightarrow> string \<Rightarrow> string
     \<Rightarrow> (nat \<times> bool) list list outcome" where
  "find_route depth self start_line start_station end_line end_station =
     (case map_of (lines self) start_line of
        None \<Rightarrow> Some (Inl KeyError)
      | Some start_stations \<Rightarrow>
          (case map_of (lines self) end_line of
             None \<Rightarrow> Some (Inl KeyError)
           | Some end_stations \<Rightarrow>
               (case (first_named self start_stations start_station,
                      first_named self end_stations end_station) of
                  (Some start, Some end) \<Rightarrow>
                     and_then (dfs depth self start end False initial_state)
                       (\<lambda>st. Some (Inr (all_paths st)))
                | _ \<Rightarrow> Some (Inr []))))"

section \<open>The scenario network of the specification\<close>

text \<open>
  Line A with the stops 1 X, 2 Y, 3 Z, line B with the stops 4 Y, 5 W, and a transfer
  link between the stops 2 and 4.
\<close>

definition scenario_rows :: "row list" where
  "scenario_rows =
     [(1, ''A'', ''X'', []), (2, ''A'', ''Y'', [4]), (3, ''A'', ''Z'', []),
      (4, ''B'', ''Y'', [2]), (5, ''B'', ''W'', [])]"

definition scenario :: SubwaySystem where
  "scenario = load_from_csv SubwaySystem_init scenario_rows"

section \<open>The signature as the specification words it\<close>

text \<open>
  The reference definition: walk the ids in order and build an output list, appending
  each id unless that would make the last three entries of the output list identical;
  then join the output list. The specification does not name the separator of the join;
  the reference takes the comma of the code.
\<close>

definition last_three_identical :: "int list \<Rightarrow> bool" where
  "last_three_identical out = (case rev out of a # b # c # _ \<Rightarrow> a = b \<and> b = c | _ \<Rightarrow> False)"

fun reference_output :: "int list \<Rightarrow> int list \<Rightarrow> int list" where
  "reference_output out [] = out"
| "reference_output out (x # xs) =
     (if last_three_identical (out @ [x]) then reference_output out xs
      else reference_output (out @ [x]) xs)"

definition reference_signature :: "int list \<Rightarrow> string" where
  "reference_signature ids = join '','' (map str_int (reference_output [] ids))"

section \<open>Notions used in the proofs about loading\<close>

text \<open>
  The system after the first loop of \<open>load_from_csv\<close>, the object a row creates, a
  station without its links, the line of a row, heaps whose links stay below a bound,
  and the well-formedness that every loaded system has. \<open>duplicate_rows\<close> is a table in
  which two rows carry the id 2.
\<close>

definition first_loop :: "row list \<Rightarrow> SubwaySystem" where
  "first_loop rows = fold (\<lambda>r s. add_row s r) rows SubwaySystem_init"

definition new_station :: "row \<Rightarrow> Station" where
  "new_station r =
     (case r of (sid, l, nm, tids) \<Rightarrow>
        \<lparr>station_id = sid, line = l, name = nm, transfer_ids = tids,
         prev = None, next_station = None\<rparr>)"

definition unlinked :: "Station \<Rightarrow> Station" where
  "unlinked s = s\<lparr>prev := None, next_station := None\<rparr>"

definition row_line :: "row \<Rightarrow> string" where
  "row_line r = fst (snd r)"

definition links_below :: "nat \<Rightarrow> Station list \<Rightarrow> bool" where
  "links_below n h =
     (\<forall>s \<in> set h. (\<forall>b. prev s = Some b \<longrightarrow> b < n) \<and> (\<forall>b. next_station s = Some b \<longrightarrow> b < n))"

definition well_formed :: "SubwaySystem \<Rightarrow> bool" where
  "well_formed self =
     (links_below (length (heap self)) (heap self)
      \<and> (\<forall>k a. map_of (stations self) k = Some a
             \<longrightarrow> a < length (heap self) \<and> station_id (heap self ! a) = k)
      \<and> (\<forall>l ls. map_of (lines self) l = Some ls
             \<longrightarrow> (\<forall>a \<in> set ls. a < length (heap self) \<and> line (heap self ! a) = l)))"

definition duplicate_rows :: "row list" where
  "duplicate_rows = [(1, ''A'', ''X'', []), (2, ''A'', ''Y'', []), (2, ''B'', ''Q'', [])]"

section \<open>Notions used in the proofs about the search\<close>

text \<open>
  \<open>step_ok self target pre x\<close>: the search, expanding the last stop of the path \<open>pre\<close>
  with the ids of \<open>pre\<close> visited, calls \<open>dfs\<close> on the stop and with the flag of \<open>x\<close>.
  \<open>chain self target pre rest\<close>: every element of \<open>rest\<close> is such a step from the path before
  it, and the last stop has the id of the target. \<open>extends_by\<close> is what a call of \<open>dfs\<close>
  that returns has done to the state, and \<open>call_ok\<close> says so of a function that stands
  for the recursive call.
\<close>

definition step_ok :: "SubwaySystem \<Rightarrow> nat \<Rightarrow> (nat \<times> bool) list \<Rightarrow> nat \<times> bool \<Rightarrow> bool" where
  "step_ok self target pre x =
     (let current = heap self ! fst (last pre); t = heap self ! target;
          vis = set (path_ids self pre)
      in pre \<noteq> [] \<and> station_id current \<noteq> station_id t
         \<and> station_id (heap self ! fst x) \<notin> vis
         \<and> (if line current = line t
             then \<not> snd x \<and> (prev current = Some (fst x) \<or> next_station current = Some (fst x))
             else case partition_transfers self t vis (transfer_ids current) ([], []) of
                    Inl e \<Rightarrow> False
                  | Inr (target_line_transfers, other_transfers) \<Rightarrow>
                      if target_line_transfers \<noteq> []
                      then snd x \<and> fst x \<in> set target_line_transfers
                      else (snd x \<and> fst x \<in> set other_transfers)
                           \<or> (\<not> snd x \<and> (prev current = Some (fst x)
                                             \<or> next_station current = Some (fst x)))))"

fun chain :: "SubwaySystem \<Rightarrow> nat \<Rightarrow> (nat \<times> bool) list \<Rightarrow> (nat \<times> bool) list \<Rightarrow> bool" where
  "chain self target pre [] =
     (pre \<noteq> [] \<and> station_id (heap self ! fst (last pre)) = station_id (heap self ! target))"
| "chain self target pre (x # rest) =
     (step_ok self target pre x \<and> chain self target (pre @ [x]) rest)"

definition extends_by ::
  "SubwaySystem \<Rightarrow> nat \<Rightarrow> (nat \<times> bool) list \<Rightarrow> search_state \<Rightarrow> search_state \<Rightarrow> bool" where
  "extends_by self target pre st st' =
     (visited st' = visited st \<and> current_path st' = current_path st
      \<and> (\<exists>new. all_paths st' = all_paths st @ new
                 \<and> (\<forall>q \<in> set new. \<exists>rest. q = pre @ rest \<and> chain self target pre rest)))"

definition call_ok ::
  "SubwaySystem \<Rightarrow> nat \<Rightarrow> (nat \<Rightarrow> bool \<Rightarrow> search_state \<Rightarrow> search_state outcome) \<Rightarrow> bool" where
  "call_ok self target call =
     (\<forall>c flag st st'.
        visited st = set (path_ids self (current_path st)) \<and> call c flag st = Some (Inr st')
        \<longrightarrow> extends_by self target (current_path st @ [(c, flag)]) st st')"

text \<open>
  The ids of all stations, and what it means for a function that stands for the
  recursive call to return whenever at most \<open>k\<close> ids are not yet visited.
\<close>

definition all_ids :: "SubwaySystem \<Rightarrow> int set" where
  "all_ids self = station_id ` set (heap self)"

definition call_returns ::
  "SubwaySystem \<Rightarrow> nat \<Rightarrow> (nat \<Rightarrow> bool \<Rightarrow> search_state \<Rightarrow> search_state outcome) \<Rightarrow> bool" where
  "call_returns self k call =
     (\<forall>c flag st.
        c < length (heap self) \<and> visited st = set (path_ids self (current_path st))
        \<and> visited st \<subseteq> all_ids self
        \<and> station_id (heap self ! c) \<notin> visited st \<and> card (all_ids self - visited st) \<le> k
        \<longrightarrow> call c flag st \<noteq> None)"

text \<open>
  A function that stands for the recursive call and raises no error, and networks in
  which every transfer id is a key of \<open>stations\<close>.
\<close>

definition call_safe ::
  "SubwaySystem \<Rightarrow> (nat \<Rightarrow> bool \<Rightarrow> search_state \<Rightarrow> search_state outcome) \<Rightarrow> bool" where
  "call_safe self call =
     (\<forall>c flag st e.
        c < length (heap self) \<and> visited st = set (path_ids self (current_path st))
        \<longrightarrow> call c flag st \<noteq> Some (Inl e))"

definition resolvable :: "SubwaySystem \<Rightarrow> bool" where
  "resolvable self =
     (\<forall>s \<in> set (heap self). \<forall>transfer_id \<in> set (transfer_ids s).
        map_of (stations self) transfer_id \<noteq> None)"

section \<open>A larger depth allowance never changes an outcome\<close>

lemma and_then_Some_iff:
  "and_then m f = Some r \<longleftrightarrow>
     (\<exists>e. m = Some (Inl e) \<and> r = Inl e) \<or> (\<exists>x. m = Some (Inr x) \<and> f x = Some r)"
  by (auto simp: and_then_def split: option.splits sum.splits)

lemma and_then_mono:
  assumes "and_then m f = Some r" and "\<And>x. f x = Some r \<Longrightarrow> f' x = Some r"
  shows "and_then m f' = Some r"
  using assms by (auto simp: and_then_def split: option.splits sum.splits)

lemma for_each_mono:
  assumes "\<And>x s r. body x s = Some r \<Longrightarrow> body' x s = Some r"
  shows "for_each body xs s = Some r \<Longrightarrow> for_each body' xs s = Some r"
proof (induction xs arbitrary: s)
  case Nil
  then show ?case by simp
next
  case (Cons x xs)
  from Cons.prems have "and_then (body x s) (for_each body xs) = Some r" by simp
  then consider e where "body x s = Some (Inl e)" "r = Inl e"
    | s1 where "body x s = Some (Inr s1)" "for_each body xs s1 = Some r"
    by (auto simp: and_then_Some_iff)
  then show ?case
  proof cases
    case 1
    from assms [OF 1(1)] 1(2) show ?thesis by (simp add: and_then_def)
  next
    case 2
    from assms [OF 2(1)] Cons.IH [OF 2(2)] show ?thesis by (simp add: and_then_def)
  qed
qed

lemma explore_neighbours_mono:
  assumes "\<And>c f s r. call c f s = Some r \<Longrightarrow> call' c f s = Some r"
  shows "explore_neighbours call self cur st = Some r \<Longrightarrow> explore_neighbours call' self cur st = Some r"
  unfolding explore_neighbours_def
  by (erule for_each_mono [rotated]) (auto split: option.splits if_splits intro: assms)

lemma explore_transfers_mono:
  assumes "\<And>c f s r. call c f s = Some r \<Longrightarrow> call' c f s = Some r"
  shows "explore_transfers call ts st = Some r \<Longrightarrow> explore_transfers call' ts st = Some r"
  unfolding explore_transfers_def
  by (erule for_each_mono [rotated]) (auto intro: assms)

lemma expand_mono:
  assumes "\<And>c f s r. call c f s = Some r \<Longrightarrow> call' c f s = Some r"
  shows "expand call self cur tgt st = Some r \<Longrightarrow> expand call' self cur tgt st = Some r"
  unfolding expand_def
  by (auto split: if_splits sum.splits prod.splits
        intro: explore_neighbours_mono [OF assms] explore_transfers_mono [OF assms]
        elim!: and_then_mono)
   (auto simp: and_then_Some_iff intro: explore_neighbours_mono [OF assms] explore_transfers_mono [OF assms])

lemma dfs_body_mono:
  assumes "\<And>c f s r. call c f s = Some r \<Longrightarrow> call' c f s = Some r"
  shows "dfs_body call self cur tgt flag st = Some r \<Longrightarrow> dfs_body call' self cur tgt flag st = Some r"
  unfolding dfs_body_def Let_def
  by (auto split: if_splits simp: and_then_Some_iff intro: expand_mono [OF assms])

lemma dfs_Suc_mono: "dfs depth self cur tgt flag st = Some r \<Longrightarrow> dfs (Suc depth) self cur tgt flag st = Some r"
proof (induction depth arbitrary: cur flag st r)
  case 0
  then show ?case by simp
next
  case (Suc depth)
  from Suc.prems show ?case
    by (simp del: dfs.simps(2) add: dfs.simps(2) [of "Suc depth"] dfs.simps(2) [of depth])
       (erule dfs_body_mono [rotated], rule Suc.IH)
qed

lemma dfs_mono: "dfs depth self cur tgt flag st = Some r \<Longrightarrow> depth \<le> depth' \<Longrightarrow> dfs depth' self cur tgt flag st = Some r"
  by (induction depth' ) (auto simp: le_Suc_eq dest: dfs_Suc_mono simp del: dfs.simps)

lemma find_route_mono:
  "find_route depth self sl sn el en = Some r \<Longrightarrow> depth \<le> depth' \<Longrightarrow> find_route depth' self sl sn el en = Some r"
  unfolding find_route_def
  by (auto split: option.splits simp: and_then_Some_iff dest: dfs_mono)

section \<open>The same-line scenario\<close>

text \<open>
  Claim C7. On the scenario network, the query from X on line A to Z on line A returns
  exactly one path, as soon as the search is allowed three nested calls: the stops with
  the ids 1, 2, 3, every transfer flag false.
\<close>

theorem scenario_same_line:
  assumes "3 \<le> depth"
  shows "\<exists>p. find_route depth scenario ''A'' ''X'' ''A'' ''Z'' = Some (Inr [p])
           \<and> path_ids scenario p = [1, 2, 3] \<and> map snd p = [False, False, False]"
proof -
  have "find_route 3 scenario ''A'' ''X'' ''A'' ''Z''
          = Some (Inr [[(0, False), (1, False), (2, False)]])"
    by code_simp
  from find_route_mono [OF this assms]
  have "find_route depth scenario ''A'' ''X'' ''A'' ''Z''
          = Some (Inr [[(0, False), (1, False), (2, False)]])" .
  moreover have "path_ids scenario [(0, False), (1, False), (2, False)] = [1, 2, 3]"
    by code_simp
  ultimately show ?thesis by simp
qed

theorem scenario_same_line_witness:
  "(3::nat) \<le> 5 \<and> (\<exists>p. find_route 5 scenario ''A'' ''X'' ''A'' ''Z'' = Some (Inr [p])
           \<and> path_ids scenario p = [1, 2, 3] \<and> map snd p = [False, False, False])"
  using scenario_same_line [of 5] by simp

section \<open>The signature\<close>

lemma signature_step_reference:
  "signature_step out x = (if last_three_identical (out @ [x]) then out else out @ [x])"
proof (cases "rev out")
  case Nil
  then show ?thesis by (simp add: signature_step_def last_three_identical_def)
next
  case (Cons a as)
  note outer = Cons
  show ?thesis
  proof (cases as)
    case Nil
    with outer show ?thesis by (simp add: signature_step_def last_three_identical_def)
  next
    case (Cons b bs)
    with outer have "rev out = a # b # bs" by simp
    then have out: "out = rev bs @ [b, a]" by (simp add: rev_swap [symmetric])
    show ?thesis
      unfolding out by (auto simp: signature_step_def last_three_identical_def nth_append)
  qed
qed

lemma foldl_signature_step: "foldl signature_step out ids = reference_output out ids"
  by (induction ids arbitrary: out) (simp_all add: signature_step_reference)

text \<open>
  Claim C3. The signature that \<open>get_path_signature\<close> computes for a path is the
  reference signature of the ids of the path.
\<close>

theorem signature_refines_reference:
  "get_path_signature self path = reference_signature (path_ids self path)"
  by (simp add: get_path_signature_def reference_signature_def processed_ids_def foldl_signature_step)

theorem signature_refines_reference_witness:
  "get_path_signature scenario [(0, False), (1, False), (3, True)]
     = reference_signature (path_ids scenario [(0, False), (1, False), (3, True)])
   \<and> reference_signature (path_ids scenario [(0, False), (1, False), (3, True)]) = ''1,2,4''"
proof -
  have "reference_signature (path_ids scenario [(0, False), (1, False), (3, True)]) = ''1,2,4''"
    by code_simp
  with signature_refines_reference [of scenario "[(0, False), (1, False), (3, True)]"]
  show ?thesis by simp
qed

section \<open>Queries that do not resolve\<close>

lemma scenario_lines: "lines scenario = [(''A'', [0, 1, 2]), (''B'', [3, 4])]"
  by code_simp

text \<open>
  Claim C1, as stated, fails where a line is not a key of \<open>lines\<close>: on the scenario
  network, a query from the unknown line C raises \<open>KeyError\<close>.
\<close>

theorem unknown_line_raises:
  "find_route 5 scenario ''C'' ''X'' ''A'' ''Z'' = Some (Inl KeyError)"
  by code_simp

text \<open>
  Claim C1, amended. When the start line or the end line is not a key of \<open>lines\<close>,
  \<open>find_route\<close> raises \<open>KeyError\<close>. When both lines are keys and the start name or the
  end name is not the name of a stop of its line, \<open>find_route\<close> returns the empty list,
  whatever the depth allowed.
\<close>

theorem find_route_unresolved:
  "(map_of (lines self) start_line = None \<or> map_of (lines self) end_line = None
      \<longrightarrow> find_route depth self start_line start_station end_line end_station = Some (Inl KeyError))
   \<and> (\<forall>start_stations end_stations.
        map_of (lines self) start_line = Some start_stations
        \<and> map_of (lines self) end_line = Some end_stations
        \<and> (first_named self start_stations start_station = None
             \<or> first_named self end_stations end_station = None)
      \<longrightarrow> find_route depth self start_line start_station end_line end_station = Some (Inr []))"
  by (auto simp: find_route_def split: option.splits)

theorem find_route_unresolved_witness:
  "map_of (lines scenario) ''D'' = None
   \<and> find_route 0 scenario ''D'' ''X'' ''A'' ''Z'' = Some (Inl KeyError)
   \<and> map_of (lines scenario) ''A'' = Some [0, 1, 2]
   \<and> map_of (lines scenario) ''B'' = Some [3, 4]
   \<and> first_named scenario [3, 4] ''X'' = None
   \<and> find_route 0 scenario ''A'' ''X'' ''B'' ''X'' = Some (Inr [])"
proof -
  have 1: "map_of (lines scenario) ''D'' = None" by (simp add: scenario_lines)
  have 2: "map_of (lines scenario) ''A'' = Some [0, 1, 2]" by (simp add: scenario_lines)
  have 3: "map_of (lines scenario) ''B'' = Some [3, 4]" by (simp add: scenario_lines)
  have 4: "first_named scenario [3, 4] ''X'' = None" by code_simp
  from find_route_unresolved [of scenario "''D''" "''A''" 0 "''X''" "''Z''"] 1
  have 5: "find_route 0 scenario ''D'' ''X'' ''A'' ''Z'' = Some (Inl KeyError)" by blast
  from find_route_unresolved [of scenario "''A''" "''B''" 0 "''X''" "''X''"] 2 3 4
  have 6: "find_route 0 scenario ''A'' ''X'' ''B'' ''X'' = Some (Inr [])" by blast
  from 1 2 3 4 5 6 show ?thesis by blast
qed

section \<open>Loading\<close>

lemma first_loop_Nil: "first_loop [] = SubwaySystem_init"
  by (simp add: first_loop_def)

lemma first_loop_snoc: "first_loop (rows @ [r]) = add_row (first_loop rows) r"
  by (simp add: first_loop_def)

lemma heap_add_row: "heap (add_row s r) = heap s @ [new_station r]"
  by (simp add: add_row_def new_station_def Let_def split: prod.splits)

lemma stations_add_row: "stations (add_row s r) = AList.update (fst r) (length (heap s)) (stations s)"
  by (simp add: add_row_def Let_def split: prod.splits)

lemma lines_add_row:
  "map_of (lines (add_row s r)) =
     (map_of (lines s))(row_line r \<mapsto>
        (case map_of (lines s) (row_line r) of None \<Rightarrow> [] | Some ls \<Rightarrow> ls) @ [length (heap s)])"
proof (cases "map_of (lines s) (row_line r)")
  case None
  then have "row_line r \<notin> set (map fst (lines s))" by (simp add: map_of_eq_None_iff)
  with None show ?thesis
    by (cases r) (simp add: add_row_def Let_def row_line_def map_of_map_entry update_conv' fun_eq_iff)
next
  case (Some ls)
  then have "row_line r \<in> set (map fst (lines s))"
    by (metis map_of_eq_None_iff option.distinct(1) set_map)
  with Some show ?thesis
    by (cases r) (simp add: add_row_def Let_def row_line_def map_of_map_entry fun_eq_iff)
qed

lemma distinct_lines_add_row:
  "distinct (map fst (lines s)) \<Longrightarrow> distinct (map fst (lines (add_row s r)))"
  by (simp add: add_row_def Let_def distinct_map_entry distinct_update split: prod.splits)

lemma heap_first_loop: "heap (first_loop rows) = map new_station rows"
  by (induction rows rule: rev_induct)
     (simp_all add: first_loop_Nil first_loop_snoc heap_add_row SubwaySystem_init_def)

lemma distinct_lines_first_loop: "distinct (map fst (lines (first_loop rows)))"
  by (induction rows rule: rev_induct)
     (simp_all add: first_loop_Nil first_loop_snoc distinct_lines_add_row SubwaySystem_init_def)

lemma stations_first_loop:
  "map_of (stations (first_loop rows)) k = Some a \<longleftrightarrow>
     a < length rows \<and> fst (rows ! a) = k \<and> (\<forall>b. a < b \<and> b < length rows \<longrightarrow> fst (rows ! b) \<noteq> k)"
proof (induction rows arbitrary: a rule: rev_induct)
  case Nil
  then show ?case by (simp add: first_loop_Nil SubwaySystem_init_def)
next
  case (snoc r rows)
  have m: "map_of (stations (first_loop (rows @ [r]))) =
           (map_of (stations (first_loop rows)))(fst r \<mapsto> length rows)"
    by (simp add: first_loop_snoc stations_add_row update_conv' heap_first_loop)
  have last: "fst ((rows @ [r]) ! length rows) = fst r" by simp
  have old: "fst ((rows @ [r]) ! b) = fst (rows ! b)" if "b < length rows" for b
    using that by (simp add: nth_append)
  show ?case
  proof (cases "k = fst r")
    case True
    have "(a < length (rows @ [r]) \<and> fst ((rows @ [r]) ! a) = k
            \<and> (\<forall>b. a < b \<and> b < length (rows @ [r]) \<longrightarrow> fst ((rows @ [r]) ! b) \<noteq> k))
          \<longleftrightarrow> a = length rows" (is "?L \<longleftrightarrow> _")
    proof
      assume l: ?L
      show "a = length rows"
      proof (rule ccontr)
        assume "a \<noteq> length rows"
        with l have "a < length rows" by simp
        moreover from l have "a < length rows \<and> length rows < length (rows @ [r])
                    \<longrightarrow> fst ((rows @ [r]) ! length rows) \<noteq> k" by blast
        ultimately have "fst ((rows @ [r]) ! length rows) \<noteq> k" by simp
        with True last show False by simp
      qed
    next
      assume "a = length rows"
      with True last show ?L by simp
    qed
    with True m show ?thesis by auto
  next
    case False
    have "(a < length (rows @ [r]) \<and> fst ((rows @ [r]) ! a) = k
            \<and> (\<forall>b. a < b \<and> b < length (rows @ [r]) \<longrightarrow> fst ((rows @ [r]) ! b) \<noteq> k))
          \<longleftrightarrow> (a < length rows \<and> fst (rows ! a) = k
            \<and> (\<forall>b. a < b \<and> b < length rows \<longrightarrow> fst (rows ! b) \<noteq> k))" (is "?L \<longleftrightarrow> ?R")
    proof
      assume l: ?L
      with False last have "a \<noteq> length rows" by auto
      with l have a: "a < length rows" by simp
      with l old have "fst (rows ! a) = k" by simp
      moreover have "fst (rows ! b) \<noteq> k" if "a < b" "b < length rows" for b
      proof -
        from l have "a < b \<and> b < length (rows @ [r]) \<longrightarrow> fst ((rows @ [r]) ! b) \<noteq> k" by blast
        with that old [of b] show ?thesis by simp
      qed
      ultimately show ?R using a by blast
    next
      assume r: ?R
      then have a: "a < length rows" by simp
      have "fst ((rows @ [r]) ! b) \<noteq> k" if "a < b" "b < length (rows @ [r])" for b
      proof (cases "b = length rows")
        case True
        with False last show ?thesis by simp
      next
        case False
        with that have b: "b < length rows" by simp
        from r have "a < b \<and> b < length rows \<longrightarrow> fst (rows ! b) \<noteq> k" by blast
        with b that old [of b] show ?thesis by simp
      qed
      with a r old [of a] show ?L by simp
    qed
    with False m snoc.IH [of a] show ?thesis by simp
  qed
qed

lemma no_row_on_line:
  "l \<notin> row_line ` set rows \<Longrightarrow> filter (\<lambda>a. row_line (rows ! a) = l) [0..<length rows] = []"
  by (auto simp: filter_empty_conv)

lemma lines_first_loop:
  "map_of (lines (first_loop rows)) l =
     (if l \<in> row_line ` set rows
      then Some (filter (\<lambda>a. row_line (rows ! a) = l) [0..<length rows]) else None)"
proof (induction rows arbitrary: l rule: rev_induct)
  case Nil
  then show ?case by (simp add: first_loop_Nil SubwaySystem_init_def)
next
  case (snoc r rows)
  have f: "filter (\<lambda>a. row_line ((rows @ [r]) ! a) = l) [0..<length rows]
           = filter (\<lambda>a. row_line (rows ! a) = l) [0..<length rows]" for l
    by (rule filter_cong) (auto simp: nth_append)
  show ?case
    by (simp add: first_loop_snoc lines_add_row heap_first_loop snoc.IH f no_row_on_line)
qed

lemma length_link_at: "length (link_at ls i h) = length h"
  by (simp add: link_at_def Let_def)

lemma unlinked_update_prev: "unlinked (s\<lparr>prev := p\<rparr>) = unlinked s"
  by (simp add: unlinked_def)

lemma unlinked_update_next: "unlinked (s\<lparr>next_station := p\<rparr>) = unlinked s"
  by (simp add: unlinked_def)

lemma map_unlinked_update:
  "unlinked v = unlinked (h ! k) \<Longrightarrow> map unlinked (h[k := v]) = map unlinked h"
  by (cases "k < length h") (simp_all add: map_update list_update_same_conv list_update_beyond)

lemma unlinked_link_at: "map unlinked (link_at ls i h) = map unlinked h"
  by (simp add: link_at_def Let_def map_unlinked_update unlinked_update_prev unlinked_update_next)

lemma links_below_update:
  assumes "links_below n h"
    and "\<And>b. prev v = Some b \<Longrightarrow> b < n" and "\<And>b. next_station v = Some b \<Longrightarrow> b < n"
  shows "links_below n (h[k := v])"
proof -
  have "set (h[k := v]) \<subseteq> insert v (set h)" by (rule set_update_subset_insert)
  with assms show ?thesis unfolding links_below_def by blast
qed

lemma links_below_nth:
  "links_below n h \<Longrightarrow> k < length h \<Longrightarrow>
     (\<forall>b. prev (h ! k) = Some b \<longrightarrow> b < n) \<and> (\<forall>b. next_station (h ! k) = Some b \<longrightarrow> b < n)"
  unfolding links_below_def using nth_mem [of k h] by blast

lemma links_below_set_prev:
  assumes "links_below n h" and "b < n"
  shows "links_below n (h[k := (h ! k)\<lparr>prev := Some b\<rparr>])"
proof (cases "k < length h")
  case True
  from links_below_nth [OF assms(1) True] assms(2) show ?thesis
    by (intro links_below_update [OF assms(1)]) simp_all
next
  case False
  with assms(1) show ?thesis by (simp add: list_update_beyond)
qed

lemma links_below_set_next:
  assumes "links_below n h" and "b < n"
  shows "links_below n (h[k := (h ! k)\<lparr>next_station := Some b\<rparr>])"
proof (cases "k < length h")
  case True
  from links_below_nth [OF assms(1) True] assms(2) show ?thesis
    by (intro links_below_update [OF assms(1)]) simp_all
next
  case False
  with assms(1) show ?thesis by (simp add: list_update_beyond)
qed

lemma links_below_link_at:
  assumes "links_below n h" and "\<forall>a \<in> set ls. a < n" and "i < length ls"
  shows "links_below n (link_at ls i h)"
proof -
  have p: "ls ! (i - 1) < n" using assms(2,3) by (simp add: less_imp_diff_less)
  have q: "ls ! (i + 1) < n" if "i < length ls - 1" using assms(2) that by simp
  define h1 where "h1 = (if 0 < i
                then h[ls ! i := (h ! (ls ! i))\<lparr>prev := Some (ls ! (i - 1))\<rparr>]
                else h)"
  have h1: "links_below n h1"
    unfolding h1_def using assms(1) p by (simp add: links_below_set_prev)
  have "link_at ls i h = (if i < length ls - 1
         then h1[ls ! i := (h1 ! (ls ! i))\<lparr>next_station := Some (ls ! (i + 1))\<rparr>]
         else h1)"
    by (simp add: link_at_def h1_def Let_def)
  with h1 q show ?thesis by (simp add: links_below_set_next)
qed

lemma link_line_props:
  assumes "links_below n h" and "\<forall>a \<in> set ls. a < n"
  shows "links_below n (link_line ls h) \<and> map unlinked (link_line ls h) = map unlinked h"
proof -
  have "set is \<subseteq> {..<length ls} \<Longrightarrow> links_below n h' \<Longrightarrow>
          links_below n (fold (link_at ls) is h')
          \<and> map unlinked (fold (link_at ls) is h') = map unlinked h'" for "is" h'
  proof (induction "is" arbitrary: h')
    case Nil
    then show ?case by simp
  next
    case (Cons i "is")
    from Cons.prems have "i < length ls" by simp
    with Cons.prems(2) assms(2) have "links_below n (link_at ls i h')"
      by (intro links_below_link_at)
    with Cons.IH [of "link_at ls i h'"] Cons.prems(1) show ?case
      by (simp add: unlinked_link_at)
  qed
  moreover have "set [0..<length ls] \<subseteq> {..<length ls}" by auto
  ultimately show ?thesis
    unfolding link_line_def using assms(1) by blast
qed

lemma fold_link_line_props:
  assumes "\<forall>ls \<in> set lss. \<forall>a \<in> set ls. a < n"
  shows "links_below n h \<Longrightarrow>
           links_below n (fold link_line lss h) \<and> map unlinked (fold link_line lss h) = map unlinked h"
  using assms
proof (induction lss arbitrary: h)
  case Nil
  then show ?case by simp
next
  case (Cons ls lss)
  from Cons.prems have "links_below n (link_line ls h) \<and> map unlinked (link_line ls h) = map unlinked h"
    by (intro link_line_props) simp_all
  with Cons.IH [of "link_line ls h"] Cons.prems(2) show ?case by simp
qed

lemma load_from_csv_first_loop:
  "load_from_csv SubwaySystem_init rows =
     (first_loop rows)\<lparr>heap := fold link_line (map snd (lines (first_loop rows))) (heap (first_loop rows))\<rparr>"
  by (simp add: load_from_csv_def first_loop_def Let_def)

lemma lines_first_loop_below:
  assumes "ls \<in> set (map snd (lines (first_loop rows)))" and "a \<in> set ls"
  shows "a < length rows"
proof -
  from assms(1) obtain l where "(l, ls) \<in> set (lines (first_loop rows))" by auto
  with distinct_lines_first_loop have "map_of (lines (first_loop rows)) l = Some ls"
    by (rule map_of_is_SomeI)
  with assms(2) show ?thesis
    by (auto simp: lines_first_loop split: if_splits)
qed

lemma unlinked_new_station: "unlinked (new_station r) = new_station r"
  by (cases r) (simp add: unlinked_def new_station_def)

lemma links_below_new: "links_below n (map new_station rows)"
  by (auto simp: links_below_def new_station_def split: prod.splits)

lemma load_from_csv_heap:
  "links_below (length rows) (heap (load_from_csv SubwaySystem_init rows))
   \<and> map unlinked (heap (load_from_csv SubwaySystem_init rows)) = map new_station rows"
proof -
  have "\<forall>ls \<in> set (map snd (lines (first_loop rows))). \<forall>a \<in> set ls. a < length rows"
    using lines_first_loop_below by blast
  from fold_link_line_props [OF this links_below_new [of "length rows" rows]]
  show ?thesis
    by (simp add: load_from_csv_first_loop heap_first_loop unlinked_new_station)
qed

lemma load_from_csv_length: "length (heap (load_from_csv SubwaySystem_init rows)) = length rows"
proof -
  have "length (map unlinked (heap (load_from_csv SubwaySystem_init rows))) = length (map new_station rows)"
    by (simp only: load_from_csv_heap)
  then show ?thesis by simp
qed

lemma load_from_csv_nth:
  assumes "a < length rows"
  shows "unlinked (heap (load_from_csv SubwaySystem_init rows) ! a) = new_station (rows ! a)"
proof -
  have "map unlinked (heap (load_from_csv SubwaySystem_init rows)) ! a = map new_station rows ! a"
    by (simp only: load_from_csv_heap)
  with assms show ?thesis by (simp add: load_from_csv_length)
qed

lemma load_from_csv_fields:
  assumes "a < length rows"
  shows "station_id (heap (load_from_csv SubwaySystem_init rows) ! a) = fst (rows ! a)"
    and "line (heap (load_from_csv SubwaySystem_init rows) ! a) = row_line (rows ! a)"
    and "name (heap (load_from_csv SubwaySystem_init rows) ! a) = fst (snd (snd (rows ! a)))"
    and "transfer_ids (heap (load_from_csv SubwaySystem_init rows) ! a) = snd (snd (snd (rows ! a)))"
proof -
  let ?s = "heap (load_from_csv SubwaySystem_init rows) ! a"
  have "station_id ?s = station_id (unlinked ?s)" "line ?s = line (unlinked ?s)"
    "name ?s = name (unlinked ?s)" "transfer_ids ?s = transfer_ids (unlinked ?s)"
    by (simp_all add: unlinked_def)
  then show "station_id ?s = fst (rows ! a)" "line ?s = row_line (rows ! a)"
    "name ?s = fst (snd (snd (rows ! a)))" "transfer_ids ?s = snd (snd (snd (rows ! a)))"
    by (simp_all add: load_from_csv_nth [OF assms] new_station_def row_line_def split: prod.splits)
qed

lemma load_from_csv_stations: "stations (load_from_csv SubwaySystem_init rows) = stations (first_loop rows)"
  by (simp add: load_from_csv_first_loop)

lemma load_from_csv_lines: "lines (load_from_csv SubwaySystem_init rows) = lines (first_loop rows)"
  by (simp add: load_from_csv_first_loop)

lemma well_formed_load: "well_formed (load_from_csv SubwaySystem_init rows)"
  unfolding well_formed_def
proof (intro conjI allI impI ballI)
  show "links_below (length (heap (load_from_csv SubwaySystem_init rows)))
          (heap (load_from_csv SubwaySystem_init rows))"
    by (simp add: load_from_csv_length load_from_csv_heap)
next
  fix k a
  assume "map_of (stations (load_from_csv SubwaySystem_init rows)) k = Some a"
  then have "a < length rows \<and> fst (rows ! a) = k"
    by (simp add: load_from_csv_stations stations_first_loop)
  then show "a < length (heap (load_from_csv SubwaySystem_init rows))"
    and "station_id (heap (load_from_csv SubwaySystem_init rows) ! a) = k"
    by (simp_all add: load_from_csv_length load_from_csv_fields)
next
  fix l ls a
  assume "map_of (lines (load_from_csv SubwaySystem_init rows)) l = Some ls" and "a \<in> set ls"
  then have "a < length rows \<and> row_line (rows ! a) = l"
    by (auto simp: load_from_csv_lines lines_first_loop split: if_splits)
  then show "a < length (heap (load_from_csv SubwaySystem_init rows))"
    and "line (heap (load_from_csv SubwaySystem_init rows) ! a) = l"
    by (simp_all add: load_from_csv_length load_from_csv_fields)
qed

text \<open>
  Claim C2, as stated, fails: \<open>load_from_csv\<close> has no test for a repeated id. On
  \<open>duplicate_rows\<close> it builds a system; the entry of the id 2 in \<open>stations\<close> is
  overwritten by the later row, and both rows stay on their lines.
\<close>

theorem duplicate_id_overwritten:
  "stations (load_from_csv SubwaySystem_init duplicate_rows) = [(1, 0), (2, 2)]
   \<and> lines (load_from_csv SubwaySystem_init duplicate_rows) = [(''A'', [0, 1]), (''B'', [2])]
   \<and> map station_id (heap (load_from_csv SubwaySystem_init duplicate_rows)) = [1, 2, 2]"
  by code_simp

text \<open>
  Claim C2, amended. For every sequence of rows, loading builds a system: every row
  becomes a station with the data of the row, at the address that is the position of
  the row; \<open>stations\<close> maps an id to the last row that carries it; \<open>lines\<close> maps a
  line to the addresses of all its rows, in the order of the input.
\<close>

theorem load_from_csv_accepts:
  "length (heap (load_from_csv SubwaySystem_init rows)) = length rows
   \<and> (\<forall>a < length rows.
         station_id (heap (load_from_csv SubwaySystem_init rows) ! a) = fst (rows ! a)
         \<and> line (heap (load_from_csv SubwaySystem_init rows) ! a) = fst (snd (rows ! a))
         \<and> name (heap (load_from_csv SubwaySystem_init rows) ! a) = fst (snd (snd (rows ! a)))
         \<and> transfer_ids (heap (load_from_csv SubwaySystem_init rows) ! a) = snd (snd (snd (rows ! a))))
   \<and> (\<forall>k a. map_of (stations (load_from_csv SubwaySystem_init rows)) k = Some a \<longleftrightarrow>
         a < length rows \<and> fst (rows ! a) = k
         \<and> (\<forall>b. a < b \<and> b < length rows \<longrightarrow> fst (rows ! b) \<noteq> k))
   \<and> (\<forall>l. map_of (lines (load_from_csv SubwaySystem_init rows)) l =
         (if l \<in> (\<lambda>r. fst (snd r)) ` set rows
          then Some (filter (\<lambda>a. fst (snd (rows ! a)) = l) [0..<length rows]) else None))"
proof (intro conjI allI impI)
  show "length (heap (load_from_csv SubwaySystem_init rows)) = length rows"
    by (rule load_from_csv_length)
next
  fix a assume a: "a < length rows"
  from load_from_csv_fields [OF a]
  show "station_id (heap (load_from_csv SubwaySystem_init rows) ! a) = fst (rows ! a)"
    and "line (heap (load_from_csv SubwaySystem_init rows) ! a) = fst (snd (rows ! a))"
    and "name (heap (load_from_csv SubwaySystem_init rows) ! a) = fst (snd (snd (rows ! a)))"
    and "transfer_ids (heap (load_from_csv SubwaySystem_init rows) ! a) = snd (snd (snd (rows ! a)))"
    by (simp_all add: row_line_def)
next
  fix k a
  show "map_of (stations (load_from_csv SubwaySystem_init rows)) k = Some a \<longleftrightarrow>
         a < length rows \<and> fst (rows ! a) = k
         \<and> (\<forall>b. a < b \<and> b < length rows \<longrightarrow> fst (rows ! b) \<noteq> k)"
    by (simp only: load_from_csv_stations stations_first_loop)
next
  fix l
  show "map_of (lines (load_from_csv SubwaySystem_init rows)) l =
         (if l \<in> (\<lambda>r. fst (snd r)) ` set rows
          then Some (filter (\<lambda>a. fst (snd (rows ! a)) = l) [0..<length rows]) else None)"
    using lines_first_loop [of rows l] by (simp add: load_from_csv_lines row_line_def [abs_def])
qed

theorem load_from_csv_accepts_witness:
  "map_of (stations (load_from_csv SubwaySystem_init duplicate_rows)) 2 = Some 2
   \<and> map_of (lines (load_from_csv SubwaySystem_init duplicate_rows)) ''A'' = Some [0, 1]
   \<and> station_id (heap (load_from_csv SubwaySystem_init duplicate_rows) ! 1) = 2
   \<and> station_id (heap (load_from_csv SubwaySystem_init duplicate_rows) ! 2) = 2"
proof -
  have len: "length duplicate_rows = 3" by (simp add: duplicate_rows_def)
  have upt: "[0..<3] = [0, 1, 2]" by (simp add: upt_rec)
  note t = load_from_csv_accepts [of duplicate_rows]
  have "(2::nat) < length duplicate_rows \<and> fst (duplicate_rows ! 2) = 2
        \<and> (\<forall>b. 2 < b \<and> b < length duplicate_rows \<longrightarrow> fst (duplicate_rows ! b) \<noteq> 2)"
    by (simp add: duplicate_rows_def)
  with t have 1: "map_of (stations (load_from_csv SubwaySystem_init duplicate_rows)) 2 = Some 2"
    by blast
  have "''A'' \<in> (\<lambda>r. fst (snd r)) ` set duplicate_rows" by (simp add: duplicate_rows_def)
  with t have "map_of (lines (load_from_csv SubwaySystem_init duplicate_rows)) ''A''
                 = Some (filter (\<lambda>a. fst (snd (duplicate_rows ! a)) = ''A'') [0..<length duplicate_rows])"
    by presburger
  then have 2: "map_of (lines (load_from_csv SubwaySystem_init duplicate_rows)) ''A'' = Some [0, 1]"
    by (simp add: len upt) (simp add: duplicate_rows_def)
  from t have "\<forall>a < length duplicate_rows.
         station_id (heap (load_from_csv SubwaySystem_init duplicate_rows) ! a) = fst (duplicate_rows ! a)"
    by blast
  then have 3: "station_id (heap (load_from_csv SubwaySystem_init duplicate_rows) ! 1) = 2"
    and 4: "station_id (heap (load_from_csv SubwaySystem_init duplicate_rows) ! 2) = 2"
    by (simp_all add: len) (simp_all add: duplicate_rows_def)
  from 1 2 3 4 show ?thesis by blast
qed

section \<open>What a returning search has done\<close>

lemma for_each_invariant:
  assumes "for_each body xs s = Some (Inr s')" and "I s"
    and "\<And>x t t'. x \<in> set xs \<Longrightarrow> I t \<Longrightarrow> body x t = Some (Inr t') \<Longrightarrow> I t'"
  shows "I s'"
  using assms
proof (induction xs arbitrary: s)
  case Nil
  then show ?case by simp
next
  case (Cons x xs)
  from Cons.prems(1) obtain s1 where 1: "body x s = Some (Inr s1)"
    and 2: "for_each body xs s1 = Some (Inr s')"
    by (auto simp: and_then_Some_iff)
  from Cons.prems(3) [OF _ Cons.prems(2) 1] have "I s1" by simp
  show ?case
  proof (rule Cons.IH [OF 2 \<open>I s1\<close>])
    fix y t t' assume "y \<in> set xs" "I t" "body y t = Some (Inr t')"
    with Cons.prems(3) [of y t t'] show "I t'" by simp
  qed
qed

lemma partition_transfers_members:
  "partition_transfers self t vis tids (A, B) = Inr (A', B') \<Longrightarrow>
     set A' = set A \<union> {ts. \<exists>tid \<in> set tids. map_of (stations self) tid = Some ts
                            \<and> station_id (heap self ! ts) \<notin> vis \<and> line (heap self ! ts) = line t}
     \<and> set B' = set B \<union> {ts. \<exists>tid \<in> set tids. map_of (stations self) tid = Some ts
                            \<and> station_id (heap self ! ts) \<notin> vis \<and> line (heap self ! ts) \<noteq> line t}"
proof (induction tids arbitrary: A B)
  case Nil
  then show ?case by simp
next
  case (Cons tid tids)
  from Cons.prems obtain ts where ts: "map_of (stations self) tid = Some ts"
    by (auto split: option.splits)
  show ?case
  proof (cases "station_id (heap self ! ts) \<notin> vis")
    case False
    with Cons.prems ts have "partition_transfers self t vis tids (A, B) = Inr (A', B')" by simp
    from Cons.IH [OF this] ts False show ?thesis by auto
  next
    case True
    show ?thesis
    proof (cases "line (heap self ! ts) = line t")
      case l: True
      with Cons.prems ts True have "partition_transfers self t vis tids (A @ [ts], B) = Inr (A', B')"
        by simp
      from Cons.IH [OF this] ts True l show ?thesis by auto
    next
      case l: False
      with Cons.prems ts True have "partition_transfers self t vis tids (A, B @ [ts]) = Inr (A', B')"
        by simp
      from Cons.IH [OF this] ts True l show ?thesis by auto
    qed
  qed
qed

lemma extends_by_refl: "extends_by self target pre st st"
  by (simp add: extends_by_def)

lemma extends_by_trans:
  "extends_by self target pre s1 s2 \<Longrightarrow> extends_by self target pre s2 s3 \<Longrightarrow>
     extends_by self target pre s1 s3"
  unfolding extends_by_def by (elim conjE exE) (rule conjI, simp, rule conjI, simp, force)

lemma extends_by_step:
  assumes "extends_by self target (pre @ [x]) s1 s2" and "step_ok self target pre x"
  shows "extends_by self target pre s1 s2"
proof -
  from assms(1) obtain new where v: "visited s2 = visited s1" "current_path s2 = current_path s1"
    and n: "all_paths s2 = all_paths s1 @ new"
    and q: "\<forall>q \<in> set new. \<exists>rest. q = (pre @ [x]) @ rest \<and> chain self target (pre @ [x]) rest"
    unfolding extends_by_def by blast
  have "\<exists>rest. q = pre @ rest \<and> chain self target pre rest" if "q \<in> set new" for q
  proof -
    from q that obtain rest where "q = (pre @ [x]) @ rest" "chain self target (pre @ [x]) rest"
      by blast
    with assms(2) have "q = pre @ (x # rest) \<and> chain self target pre (x # rest)" by simp
    then show ?thesis by blast
  qed
  with v n show ?thesis unfolding extends_by_def by blast
qed

lemma for_each_calls:
  assumes ok: "call_ok self target call"
    and inv: "visited st = set (path_ids self (current_path st))"
    and run: "for_each body xs st = Some (Inr st')"
    and body: "\<And>x t t'. x \<in> set xs \<Longrightarrow> visited t = visited st \<Longrightarrow> body x t = Some (Inr t') \<Longrightarrow>
                 t' = t \<or> (\<exists>b flag. call b flag t = Some (Inr t')
                                   \<and> step_ok self target (current_path st) (b, flag))"
  shows "extends_by self target (current_path st) st st'"
proof (rule for_each_invariant [OF run, where I = "extends_by self target (current_path st) st"])
  show "extends_by self target (current_path st) st st" by (rule extends_by_refl)
next
  fix x t t'
  assume x: "x \<in> set xs" and t: "extends_by self target (current_path st) st t"
    and b: "body x t = Some (Inr t')"
  from t have same: "visited t = visited st" "current_path t = current_path st"
    by (simp_all add: extends_by_def)
  from body [OF x same(1) b] show "extends_by self target (current_path st) st t'"
  proof
    assume "t' = t"
    with t show ?thesis by simp
  next
    assume "\<exists>b flag. call b flag t = Some (Inr t') \<and> step_ok self target (current_path st) (b, flag)"
    then obtain b flag where c: "call b flag t = Some (Inr t')"
      and s: "step_ok self target (current_path st) (b, flag)" by blast
    from inv same have "visited t = set (path_ids self (current_path t))" by simp
    with ok c have "extends_by self target (current_path t @ [(b, flag)]) t t'"
      unfolding call_ok_def by blast
    with same have "extends_by self target (current_path st @ [(b, flag)]) t t'" by simp
    from extends_by_trans [OF t extends_by_step [OF this s]] show ?thesis .
  qed
qed

lemma explore_neighbours_extends:
  assumes ok: "call_ok self target call"
    and inv: "visited st = set (path_ids self (current_path st))"
    and run: "explore_neighbours call self current st = Some (Inr st')"
    and steps: "\<And>b. prev current = Some b \<or> next_station current = Some b \<Longrightarrow>
                  station_id (heap self ! b) \<notin> visited st \<Longrightarrow>
                  step_ok self target (current_path st) (b, False)"
  shows "extends_by self target (current_path st) st st'"
proof (rule for_each_calls [OF ok inv run [unfolded explore_neighbours_def]])
  fix x t t'
  assume x: "x \<in> set [prev current, next_station current]" and v: "visited t = visited st"
    and b: "(case x of None \<Rightarrow> Some (Inr t)
             | Some n \<Rightarrow> if station_id (heap self ! n) \<notin> visited t then call n False t
                         else Some (Inr t)) = Some (Inr t')"
  show "t' = t \<or> (\<exists>b flag. call b flag t = Some (Inr t')
                       \<and> step_ok self target (current_path st) (b, flag))"
  proof (cases x)
    case None
    with b show ?thesis by simp
  next
    case (Some n)
    show ?thesis
    proof (cases "station_id (heap self ! n) \<notin> visited t")
      case True
      with b Some have c: "call n False t = Some (Inr t')" by simp
      from x Some have "prev current = Some n \<or> next_station current = Some n" by auto
      from steps [OF this] True v have "step_ok self target (current_path st) (n, False)" by simp
      with c show ?thesis by blast
    next
      case False
      with b Some show ?thesis by simp
    qed
  qed
qed

lemma explore_transfers_extends:
  assumes ok: "call_ok self target call"
    and inv: "visited st = set (path_ids self (current_path st))"
    and run: "explore_transfers call transfers st = Some (Inr st')"
    and steps: "\<And>b. b \<in> set transfers \<Longrightarrow> step_ok self target (current_path st) (b, True)"
  shows "extends_by self target (current_path st) st st'"
  by (rule for_each_calls [OF ok inv run [unfolded explore_transfers_def]]) (use steps in blast)

lemma expand_extends:
  assumes ok: "call_ok self target call"
    and inv: "visited st = set (path_ids self (current_path st))"
    and ne: "current_path st \<noteq> []"
    and neq: "station_id (heap self ! fst (last (current_path st))) \<noteq> station_id (heap self ! target)"
    and run: "expand call self (heap self ! fst (last (current_path st))) (heap self ! target) st
                = Some (Inr st')"
  shows "extends_by self target (current_path st) st st'"
proof -
  let ?cur = "heap self ! fst (last (current_path st))"
  let ?tgt = "heap self ! target"
  show ?thesis
  proof (cases "line ?cur = line ?tgt")
    case True
    with run have r: "explore_neighbours call self ?cur st = Some (Inr st')"
      by (simp add: expand_def)
    show ?thesis
    proof (rule explore_neighbours_extends [OF ok inv r])
      fix b
      assume "prev ?cur = Some b \<or> next_station ?cur = Some b"
        and "station_id (heap self ! b) \<notin> visited st"
      with True ne neq inv show "step_ok self target (current_path st) (b, False)"
        by (simp add: step_ok_def Let_def)
    qed
  next
    case False
    with run obtain tlt ot where
      p: "partition_transfers self ?tgt (visited st) (transfer_ids ?cur) ([], []) = Inr (tlt, ot)"
      by (auto simp: expand_def split: sum.splits)
    from partition_transfers_members [OF p]
    have unvisited: "station_id (heap self ! b) \<notin> visited st" if "b \<in> set tlt \<union> set ot" for b
      using that by auto
    show ?thesis
    proof (cases "tlt \<noteq> []")
      case True
      with run False p have r: "explore_transfers call tlt st = Some (Inr st')"
        by (simp add: expand_def)
      show ?thesis
      proof (rule explore_transfers_extends [OF ok inv r])
        fix b assume "b \<in> set tlt"
        with unvisited [of b] True False ne neq inv p
        show "step_ok self target (current_path st) (b, True)"
          by (simp add: step_ok_def Let_def)
      qed
    next
      case empty: False
      with run False p obtain st1 where r1: "explore_transfers call ot st = Some (Inr st1)"
        and r2: "explore_neighbours call self ?cur st1 = Some (Inr st')"
        by (auto simp: expand_def and_then_Some_iff)
      have e1: "extends_by self target (current_path st) st st1"
      proof (rule explore_transfers_extends [OF ok inv r1])
        fix b assume "b \<in> set ot"
        with unvisited [of b] empty False ne neq inv p
        show "step_ok self target (current_path st) (b, True)"
          by (simp add: step_ok_def Let_def)
      qed
      then have same: "visited st1 = visited st" "current_path st1 = current_path st"
        by (simp_all add: extends_by_def)
      with inv have inv1: "visited st1 = set (path_ids self (current_path st1))" by simp
      have "extends_by self target (current_path st1) st1 st'"
      proof (rule explore_neighbours_extends [OF ok inv1 r2])
        fix b
        assume "prev ?cur = Some b \<or> next_station ?cur = Some b"
          and "station_id (heap self ! b) \<notin> visited st1"
        with same empty False ne neq inv p
        show "step_ok self target (current_path st1) (b, False)"
          by (simp add: step_ok_def Let_def)
      qed
      with same have "extends_by self target (current_path st) st1 st'" by simp
      from extends_by_trans [OF e1 this] show ?thesis .
    qed
  qed
qed

lemma accept_extends:
  assumes "current_path st \<noteq> []"
    and "station_id (heap self ! fst (last (current_path st))) = station_id (heap self ! target)"
  shows "extends_by self target (current_path st) st (accept self st)"
proof -
  have "chain self target (current_path st) []" using assms by simp
  then have "\<exists>rest. current_path st = current_path st @ rest \<and> chain self target (current_path st) rest"
    by (intro exI [of _ "[]"]) simp
  then show ?thesis by (simp add: extends_by_def accept_def Let_def)
qed

lemma dfs_body_ok:
  assumes ok: "call_ok self target call"
  shows "call_ok self target (\<lambda>c. dfs_body call self c target)"
  unfolding call_ok_def
proof (intro allI impI, elim conjE)
  fix c flag st st'
  assume inv: "visited st = set (path_ids self (current_path st))"
    and run: "dfs_body call self c target flag st = Some (Inr st')"
  let ?pre = "current_path st @ [(c, flag)]"
  let ?cur = "heap self ! c"
  show "extends_by self target ?pre st st'"
  proof (cases "station_id ?cur \<in> visited st")
    case True
    with run have "st' = st" by (simp add: dfs_body_def)
    then show ?thesis by (simp add: extends_by_refl)
  next
    case False
    define st1 where "st1 = st\<lparr>visited := insert (station_id ?cur) (visited st), current_path := ?pre\<rparr>"
    have p1: "current_path st1 = ?pre" and v1: "visited st1 = insert (station_id ?cur) (visited st)"
      and a1: "all_paths st1 = all_paths st"
      by (simp_all add: st1_def)
    have inv1: "visited st1 = set (path_ids self (current_path st1))"
      by (simp add: p1 v1 inv path_ids_def)
    have ne1: "current_path st1 \<noteq> []" and last1: "fst (last (current_path st1)) = c"
      by (simp_all add: p1)
    have "dfs_body call self c target flag st = and_then
             (if station_id ?cur = station_id (heap self ! target) then Some (Inr (accept self st1))
              else expand call self ?cur (heap self ! target) st1)
             (\<lambda>st2. Some (backtrack ?cur st2))"
      unfolding dfs_body_def Let_def st1_def by (simp only: False if_False)
    with run have "and_then
             (if station_id ?cur = station_id (heap self ! target) then Some (Inr (accept self st1))
              else expand call self ?cur (heap self ! target) st1)
             (\<lambda>st2. Some (backtrack ?cur st2)) = Some (Inr st')"
      by (simp only:)
    then obtain st2 where
      mid: "(if station_id ?cur = station_id (heap self ! target) then Some (Inr (accept self st1))
            else expand call self ?cur (heap self ! target) st1) = Some (Inr st2)"
      and bt: "backtrack ?cur st2 = Inr st'"
      unfolding and_then_Some_iff by blast
    have e: "extends_by self target (current_path st1) st1 st2"
    proof (cases "station_id ?cur = station_id (heap self ! target)")
      case True
      with mid have "st2 = accept self st1" by simp
      with accept_extends [OF ne1, of self target] True last1 show ?thesis by simp
    next
      case neq: False
      with mid have "expand call self (heap self ! fst (last (current_path st1)))
                       (heap self ! target) st1 = Some (Inr st2)"
        by (simp add: last1)
      from expand_extends [OF ok inv1 ne1 _ this] neq last1 show ?thesis by simp
    qed
    then obtain new where v2: "visited st2 = visited st1" and p2: "current_path st2 = current_path st1"
      and n2: "all_paths st2 = all_paths st1 @ new"
      and q2: "\<forall>q \<in> set new. \<exists>rest. q = ?pre @ rest \<and> chain self target ?pre rest"
      unfolding extends_by_def p1 by blast
    from bt have st': "st' = st2\<lparr>current_path := butlast (current_path st2),
                                   visited := visited st2 - {station_id ?cur}\<rparr>"
      by (simp add: backtrack_def split: if_splits)
    have "visited st' = visited st" using False by (simp add: st' v2 v1)
    moreover have "current_path st' = current_path st" by (simp add: st' p2 p1)
    moreover have "all_paths st' = all_paths st @ new" by (simp add: st' n2 a1)
    ultimately show ?thesis using q2 unfolding extends_by_def by blast
  qed
qed

lemma dfs_ok: "call_ok self target (\<lambda>c. dfs depth self c target)"
proof (induction depth)
  case 0
  show ?case by (simp add: call_ok_def)
next
  case (Suc depth)
  from dfs_body_ok [OF Suc] show ?case by simp
qed

lemma dfs_initial:
  assumes "dfs depth self start target False initial_state = Some (Inr st)" and "p \<in> set (all_paths st)"
  shows "\<exists>rest. p = (start, False) # rest \<and> chain self target [(start, False)] rest"
proof -
  have "visited initial_state = set (path_ids self (current_path initial_state))"
    by (simp add: initial_state_def path_ids_def)
  with dfs_ok [of self target depth] assms(1)
  have "extends_by self target (current_path initial_state @ [(start, False)]) initial_state st"
    unfolding call_ok_def by blast
  with assms(2) show ?thesis by (auto simp: extends_by_def initial_state_def)
qed

section \<open>The paths that are returned\<close>

lemma path_ids_append: "path_ids self (p @ q) = path_ids self p @ path_ids self q"
  by (simp add: path_ids_def)

lemma path_ids_single: "path_ids self [x] = [station_id (heap self ! fst x)]"
  by (simp add: path_ids_def split: prod.splits)

lemma chain_distinct:
  "chain self target pre rest \<Longrightarrow> distinct (path_ids self pre) \<Longrightarrow>
     distinct (path_ids self (pre @ rest))"
proof (induction rest arbitrary: pre)
  case Nil
  then show ?case by simp
next
  case (Cons x rest)
  from Cons.prems have "station_id (heap self ! fst x) \<notin> set (path_ids self pre)"
    and c: "chain self target (pre @ [x]) rest"
    by (simp_all add: step_ok_def Let_def)
  with Cons.prems(2) have "distinct (path_ids self (pre @ [x]))"
    by (simp add: path_ids_append path_ids_single)
  from Cons.IH [OF c this] show ?case by simp
qed

lemma chain_last:
  "chain self target pre rest \<Longrightarrow>
     station_id (heap self ! fst (last (pre @ rest))) = station_id (heap self ! target)"
proof (induction rest arbitrary: pre)
  case Nil
  then show ?case by simp
next
  case (Cons x rest)
  then have "chain self target (pre @ [x]) rest" by simp
  from Cons.IH [OF this] show ?case by simp
qed

lemma chain_nth:
  "chain self target pre rest \<Longrightarrow> j < length rest \<Longrightarrow>
     step_ok self target (pre @ take j rest) (rest ! j)"
proof (induction rest arbitrary: pre j)
  case Nil
  then show ?case by simp
next
  case (Cons x rest)
  show ?case
  proof (cases j)
    case 0
    with Cons.prems show ?thesis by simp
  next
    case (Suc k)
    from Cons.prems have c: "chain self target (pre @ [x]) rest" by simp
    from Cons.prems Suc have "k < length rest" by simp
    from Cons.IH [OF c this] Suc show ?thesis by simp
  qed
qed

lemma step_ok_below:
  assumes wf: "well_formed self" and s: "step_ok self target pre x"
    and v: "fst (last pre) < length (heap self)"
  shows "fst x < length (heap self)"
proof -
  let ?cur = "heap self ! fst (last pre)"
  let ?tgt = "heap self ! target"
  from wf have "links_below (length (heap self)) (heap self)" by (simp add: well_formed_def)
  from links_below_nth [OF this v]
  have links: "\<And>b. prev ?cur = Some b \<or> next_station ?cur = Some b \<Longrightarrow> b < length (heap self)"
    by blast
  from wf have st: "\<And>k a. map_of (stations self) k = Some a \<Longrightarrow> a < length (heap self)"
    by (simp add: well_formed_def)
  show ?thesis
  proof (cases "line ?cur = line ?tgt")
    case True
    with s have "prev ?cur = Some (fst x) \<or> next_station ?cur = Some (fst x)"
      by (simp add: step_ok_def Let_def)
    then show ?thesis by (rule links)
  next
    case False
    with s obtain tlt ot where
      p: "partition_transfers self ?tgt (set (path_ids self pre)) (transfer_ids ?cur) ([], []) = Inr (tlt, ot)"
      by (auto simp: step_ok_def Let_def split: sum.splits)
    from partition_transfers_members [OF p] st
    have tr: "\<And>b. b \<in> set tlt \<union> set ot \<Longrightarrow> b < length (heap self)" by auto
    from s False p have "fst x \<in> set tlt \<union> set ot
                           \<or> prev ?cur = Some (fst x) \<or> next_station ?cur = Some (fst x)"
      by (simp add: step_ok_def Let_def split: if_splits) blast+
    with tr links show ?thesis by blast
  qed
qed

lemma chain_below:
  assumes wf: "well_formed self"
  shows "chain self target pre rest \<Longrightarrow> \<forall>x \<in> set pre. fst x < length (heap self) \<Longrightarrow>
           \<forall>x \<in> set (pre @ rest). fst x < length (heap self)"
proof (induction rest arbitrary: pre)
  case Nil
  then show ?case by simp
next
  case (Cons x rest)
  from Cons.prems(1) have s: "step_ok self target pre x" and c: "chain self target (pre @ [x]) rest"
    by simp_all
  from s have "pre \<noteq> []" by (simp add: step_ok_def Let_def)
  with Cons.prems(2) have "fst (last pre) < length (heap self)" by simp
  from step_ok_below [OF wf s this] Cons.prems(2)
  have "\<forall>y \<in> set (pre @ [x]). fst y < length (heap self)" by simp
  from Cons.IH [OF c this] show ?case by simp
qed

lemma first_named_Some:
  "first_named self line_stations nm = Some s \<Longrightarrow> s \<in> set line_stations"
  by (auto simp: first_named_def find_Some_iff)

text \<open>What \<open>find_route\<close> has done when it returns paths.\<close>

lemma find_route_paths:
  assumes "find_route depth self start_line start_station end_line end_station = Some (Inr paths)"
    and "p \<in> set paths"
  shows "\<exists>start_stations end_stations start target rest.
           map_of (lines self) start_line = Some start_stations
           \<and> first_named self start_stations start_station = Some start
           \<and> map_of (lines self) end_line = Some end_stations
           \<and> first_named self end_stations end_station = Some target
           \<and> p = (start, False) # rest \<and> chain self target [(start, False)] rest"
proof -
  from assms obtain start_stations end_stations start target where
    l: "map_of (lines self) start_line = Some start_stations"
       "first_named self start_stations start_station = Some start"
       "map_of (lines self) end_line = Some end_stations"
       "first_named self end_stations end_station = Some target"
    and r: "and_then (dfs depth self start target False initial_state) (\<lambda>st. Some (Inr (all_paths st)))
              = Some (Inr paths)"
    by (auto simp: find_route_def split: option.splits)
  from r obtain st where "dfs depth self start target False initial_state = Some (Inr st)"
    and "paths = all_paths st"
    unfolding and_then_Some_iff by auto
  with dfs_initial [of depth self start target st p] assms(2)
  have "\<exists>rest. p = (start, False) # rest \<and> chain self target [(start, False)] rest" by simp
  with l show ?thesis by blast
qed

lemma path_step:
  assumes "p = (start, False) # rest" and "chain self target [(start, False)] rest"
    and "Suc i < length p"
  shows "step_ok self target (take (Suc i) p) (p ! Suc i) \<and> last (take (Suc i) p) = p ! i"
proof -
  from assms(1,3) have i: "i < length rest" by simp
  from chain_nth [OF assms(2) i] assms(1) have "step_ok self target (take (Suc i) p) (p ! Suc i)"
    by simp
  moreover from assms(3) have "last (take (Suc i) p) = p ! i"
    by (simp add: take_Suc_conv_app_nth)
  ultimately show ?thesis ..
qed

lemma signature_step_new: "x \<notin> set out \<Longrightarrow> signature_step out x = out @ [x]"
proof -
  assume x: "x \<notin> set out"
  have "x \<noteq> out ! (length out - 1)" if "\<not> length out < 2"
  proof -
    from that have "out ! (length out - 1) \<in> set out" by (intro nth_mem) simp
    with x show ?thesis by auto
  qed
  then show ?thesis by (auto simp: signature_step_def)
qed

lemma foldl_signature_step_distinct:
  "distinct (out @ ids) \<Longrightarrow> foldl signature_step out ids = out @ ids"
  by (induction ids arbitrary: out) (simp_all add: signature_step_new)

lemma processed_ids_distinct: "distinct ids \<Longrightarrow> processed_ids ids = ids"
  using foldl_signature_step_distinct [of "[]" ids] by (simp add: processed_ids_def)

lemma scenario_cross:
  "find_route 4 scenario ''A'' ''X'' ''B'' ''W''
     = Some (Inr [[(0, False), (1, False), (3, True), (4, False)]])"
  by code_simp

lemma scenario_heap:
  "heap scenario =
    [\<lparr>station_id = 1, line = ''A'', name = ''X'', transfer_ids = [], prev = None, next_station = Some 1\<rparr>,
     \<lparr>station_id = 2, line = ''A'', name = ''Y'', transfer_ids = [4], prev = Some 0, next_station = Some 2\<rparr>,
     \<lparr>station_id = 3, line = ''A'', name = ''Z'', transfer_ids = [], prev = Some 1, next_station = None\<rparr>,
     \<lparr>station_id = 4, line = ''B'', name = ''Y'', transfer_ids = [2], prev = None, next_station = Some 4\<rparr>,
     \<lparr>station_id = 5, line = ''B'', name = ''W'', transfer_ids = [], prev = Some 3, next_station = None\<rparr>]"
  by code_simp

lemma scenario_stations: "stations scenario = [(1, 0), (2, 1), (3, 2), (4, 3), (5, 4)]"
  by code_simp

text \<open>
  Claim C4. In a path that \<open>find_route\<close> returns on a loaded network, a stop on the end
  line that has a successor is followed by its \<open>prev\<close> or its \<open>next\<close> stop, and the
  successor's transfer flag is false.
\<close>

theorem no_transfer_from_target_line:
  fixes rows defines "g \<equiv> load_from_csv SubwaySystem_init rows"
  assumes "find_route depth g start_line start_station end_line end_station = Some (Inr paths)"
    and "p \<in> set paths" and "Suc i < length p"
    and "line (heap g ! fst (p ! i)) = end_line"
  shows "\<not> snd (p ! Suc i)
         \<and> (prev (heap g ! fst (p ! i)) = Some (fst (p ! Suc i))
              \<or> next_station (heap g ! fst (p ! i)) = Some (fst (p ! Suc i)))"
proof -
  have wf: "well_formed g" unfolding g_def by (rule well_formed_load)
  from find_route_paths [OF assms(2,3)] obtain end_stations start target rest where
    e: "map_of (lines g) end_line = Some end_stations"
       "first_named g end_stations end_station = Some target"
    and p: "p = (start, False) # rest" "chain g target [(start, False)] rest"
    by blast
  from e(2) have "target \<in> set end_stations" by (rule first_named_Some)
  with wf e(1) have t: "line (heap g ! target) = end_line" unfolding well_formed_def by blast
  from path_step [OF p assms(4)]
  have "step_ok g target (take (Suc i) p) (p ! Suc i)" and "last (take (Suc i) p) = p ! i"
    by simp_all
  with t assms(5) show ?thesis by (simp add: step_ok_def Let_def)
qed

theorem no_transfer_from_target_line_witness:
  "find_route 3 scenario ''A'' ''X'' ''A'' ''Z'' = Some (Inr [[(0, False), (1, False), (2, False)]])
   \<and> line (heap scenario ! 1) = ''A''
   \<and> \<not> snd ([(0::nat, False), (1, False), (2, False)] ! Suc 1)
   \<and> (prev (heap scenario ! 1) = Some (fst ([(0::nat, False), (1, False), (2, False)] ! Suc 1))
        \<or> next_station (heap scenario ! 1)
             = Some (fst ([(0::nat, False), (1, False), (2, False)] ! Suc 1)))"
proof -
  let ?p = "[(0::nat, False), (1, False), (2, False)]"
  let ?g = "load_from_csv SubwaySystem_init scenario_rows"
  have r: "find_route 3 ?g ''A'' ''X'' ''A'' ''Z'' = Some (Inr [?p])"
    unfolding scenario_def [symmetric] by code_simp
  have l: "line (heap ?g ! fst (?p ! 1)) = ''A''"
    unfolding scenario_def [symmetric] by (simp add: scenario_heap)
  have 1: "?p \<in> set [?p]" and 2: "Suc 1 < length ?p" by simp_all
  from no_transfer_from_target_line [OF r 1 2 l] r l show ?thesis
    unfolding scenario_def [symmetric] by simp
qed

text \<open>
  Where the partition finds a transfer onto the target line, \<open>expand\<close> is the loop
  over \<open>target_line_transfers\<close> and nothing else.
\<close>

lemma expand_direct_transfers_only:
  assumes "line current \<noteq> line target"
    and "partition_transfers self target (visited st) (transfer_ids current) ([], [])
           = Inr (target_line_transfers, other_transfers)"
    and "target_line_transfers \<noteq> []"
  shows "expand call self current target st
           = for_each (\<lambda>transfer_station. call transfer_station True) target_line_transfers st"
  using assms by (simp add: expand_def explore_transfers_def)

text \<open>
  Claim C5. In a path that \<open>find_route\<close> returns on a loaded network, let a stop with a
  successor be off the end line and have a transfer id whose station is on the end
  line and has an id that is not on the path up to the stop. Then the successor is
  entered by a transfer, is on the end line and is the station of one of the stop's
  transfer ids.
\<close>

theorem direct_transfer_priority:
  fixes rows defines "g \<equiv> load_from_csv SubwaySystem_init rows"
  assumes "find_route depth g start_line start_station end_line end_station = Some (Inr paths)"
    and "p \<in> set paths" and "Suc i < length p"
    and "line (heap g ! fst (p ! i)) \<noteq> end_line"
    and "transfer_id \<in> set (transfer_ids (heap g ! fst (p ! i)))"
    and "map_of (stations g) transfer_id = Some transfer_station"
    and "station_id (heap g ! transfer_station) \<notin> set (path_ids g (take (Suc i) p))"
    and "line (heap g ! transfer_station) = end_line"
  shows "snd (p ! Suc i) \<and> line (heap g ! fst (p ! Suc i)) = end_line
         \<and> (\<exists>tid \<in> set (transfer_ids (heap g ! fst (p ! i))).
               map_of (stations g) tid = Some (fst (p ! Suc i)))"
proof -
  have wf: "well_formed g" unfolding g_def by (rule well_formed_load)
  from find_route_paths [OF assms(2,3)] obtain end_stations start target rest where
    e: "map_of (lines g) end_line = Some end_stations"
       "first_named g end_stations end_station = Some target"
    and p: "p = (start, False) # rest" "chain g target [(start, False)] rest"
    by blast
  from e(2) have "target \<in> set end_stations" by (rule first_named_Some)
  with wf e(1) have t: "line (heap g ! target) = end_line" unfolding well_formed_def by blast
  let ?cur = "heap g ! fst (p ! i)"
  let ?vis = "set (path_ids g (take (Suc i) p))"
  from path_step [OF p assms(4)]
  have s: "step_ok g target (take (Suc i) p) (p ! Suc i)" and l: "last (take (Suc i) p) = p ! i"
    by simp_all
  from s l t assms(5) obtain tlt ot where
    pt: "partition_transfers g (heap g ! target) ?vis (transfer_ids ?cur) ([], []) = Inr (tlt, ot)"
    by (auto simp: step_ok_def Let_def split: sum.splits)
  from partition_transfers_members [OF pt]
  have tlt: "ts \<in> set tlt \<longleftrightarrow>
               (\<exists>tid \<in> set (transfer_ids ?cur). map_of (stations g) tid = Some ts
                  \<and> station_id (heap g ! ts) \<notin> ?vis
                  \<and> line (heap g ! ts) = line (heap g ! target))" for ts
    by simp
  from assms(6-9) t
  have "\<exists>tid \<in> set (transfer_ids ?cur). map_of (stations g) tid = Some transfer_station
          \<and> station_id (heap g ! transfer_station) \<notin> ?vis
          \<and> line (heap g ! transfer_station) = line (heap g ! target)"
    by (intro bexI [of _ transfer_id]) simp_all
  then have "transfer_station \<in> set tlt" by (simp only: tlt)
  then have ne: "tlt \<noteq> []" by auto
  from s have "if line (heap g ! fst (last (take (Suc i) p))) = line (heap g ! target)
      then \<not> snd (p ! Suc i) \<and> (prev (heap g ! fst (last (take (Suc i) p))) = Some (fst (p ! Suc i))
            \<or> next_station (heap g ! fst (last (take (Suc i) p))) = Some (fst (p ! Suc i)))
      else case partition_transfers g (heap g ! target) ?vis
                  (transfer_ids (heap g ! fst (last (take (Suc i) p)))) ([], []) of
             Inl e \<Rightarrow> False
           | Inr (target_line_transfers, other_transfers) \<Rightarrow>
               if target_line_transfers \<noteq> []
               then snd (p ! Suc i) \<and> fst (p ! Suc i) \<in> set target_line_transfers
               else (snd (p ! Suc i) \<and> fst (p ! Suc i) \<in> set other_transfers)
                    \<or> (\<not> snd (p ! Suc i)
                        \<and> (prev (heap g ! fst (last (take (Suc i) p))) = Some (fst (p ! Suc i))
                             \<or> next_station (heap g ! fst (last (take (Suc i) p))) = Some (fst (p ! Suc i))))"
    unfolding step_ok_def Let_def by (elim conjE)
  with l t assms(5) pt ne have f: "snd (p ! Suc i)" and m: "fst (p ! Suc i) \<in> set tlt"
    by simp_all
  from m obtain tid where "tid \<in> set (transfer_ids ?cur)"
    "map_of (stations g) tid = Some (fst (p ! Suc i))"
    "line (heap g ! fst (p ! Suc i)) = line (heap g ! target)"
    unfolding tlt by blast
  with f t show ?thesis by auto
qed

theorem direct_transfer_priority_witness:
  "find_route 4 scenario ''A'' ''X'' ''B'' ''W''
     = Some (Inr [[(0, False), (1, False), (3, True), (4, False)]])
   \<and> line (heap scenario ! 1) \<noteq> ''B''
   \<and> 4 \<in> set (transfer_ids (heap scenario ! 1))
   \<and> map_of (stations scenario) 4 = Some 3
   \<and> station_id (heap scenario ! 3) \<notin> set (path_ids scenario [(0, False), (1, False)])
   \<and> line (heap scenario ! 3) = ''B''
   \<and> snd ([(0::nat, False), (1, False), (3, True), (4, False)] ! Suc 1)
   \<and> line (heap scenario ! fst ([(0::nat, False), (1, False), (3, True), (4, False)] ! Suc 1)) = ''B''
   \<and> (\<exists>tid \<in> set (transfer_ids (heap scenario ! 1)).
         map_of (stations scenario) tid
           = Some (fst ([(0::nat, False), (1, False), (3, True), (4, False)] ! Suc 1)))"
proof -
  let ?p = "[(0::nat, False), (1, False), (3, True), (4, False)]"
  let ?g = "load_from_csv SubwaySystem_init scenario_rows"
  have r: "find_route 4 ?g ''A'' ''X'' ''B'' ''W'' = Some (Inr [?p])"
    unfolding scenario_def [symmetric] by (rule scenario_cross)
  have 1: "?p \<in> set [?p]" and 2: "Suc 1 < length ?p" by simp_all
  have 3: "line (heap ?g ! fst (?p ! 1)) \<noteq> ''B''"
    unfolding scenario_def [symmetric] by (simp add: scenario_heap)
  have 4: "4 \<in> set (transfer_ids (heap ?g ! fst (?p ! 1)))"
    unfolding scenario_def [symmetric] by (simp add: scenario_heap)
  have 5: "map_of (stations ?g) 4 = Some 3"
    unfolding scenario_def [symmetric] by (simp add: scenario_stations)
  have 6: "station_id (heap ?g ! 3) \<notin> set (path_ids ?g (take (Suc 1) ?p))"
    unfolding scenario_def [symmetric] by (simp add: scenario_heap path_ids_def)
  have 7: "line (heap ?g ! 3) = ''B''"
    unfolding scenario_def [symmetric] by (simp add: scenario_heap)
  from direct_transfer_priority [OF r 1 2 3 4 5 6 7] r 3 4 5 6 7 show ?thesis
    unfolding scenario_def [symmetric] by simp
qed

text \<open>
  The ends of a returned path, on any loaded network: the path starts at the start stop
  with the flag false, and its last stop has the id of the end stop. The search
  compares ids, so the last stop is the end stop itself when no two rows carry one id.
\<close>

lemma endpoints_by_id:
  fixes rows defines "g \<equiv> load_from_csv SubwaySystem_init rows"
  assumes "find_route depth g start_line start_station end_line end_station = Some (Inr paths)"
    and "p \<in> set paths"
  shows "p \<noteq> [] \<and> \<not> snd (hd p)
         \<and> (\<exists>start_stations. map_of (lines g) start_line = Some start_stations
               \<and> first_named g start_stations start_station = Some (fst (hd p)))
         \<and> (\<exists>end_stations end.
               map_of (lines g) end_line = Some end_stations
               \<and> first_named g end_stations end_station = Some end
               \<and> station_id (heap g ! fst (last p)) = station_id (heap g ! end)
               \<and> (distinct (map fst rows) \<longrightarrow> fst (last p) = end))"
proof -
  have wf: "well_formed g" unfolding g_def by (rule well_formed_load)
  have len: "length (heap g) = length rows" unfolding g_def by (rule load_from_csv_length)
  from find_route_paths [OF assms(2,3)] obtain start_stations end_stations start target rest where
    s: "map_of (lines g) start_line = Some start_stations"
       "first_named g start_stations start_station = Some start"
    and e: "map_of (lines g) end_line = Some end_stations"
       "first_named g end_stations end_station = Some target"
    and p: "p = (start, False) # rest" and c: "chain g target [(start, False)] rest"
    by blast
  from chain_last [OF c] p
  have id: "station_id (heap g ! fst (last p)) = station_id (heap g ! target)" by simp
  have same: "fst (last p) = target" if d: "distinct (map fst rows)"
  proof -
    from s(2) have "start \<in> set start_stations" by (rule first_named_Some)
    with wf s(1) have "start < length (heap g)" unfolding well_formed_def by blast
    then have "\<forall>x \<in> set [(start, False)]. fst x < length (heap g)" by simp
    from chain_below [OF wf c this] p have "\<forall>x \<in> set p. fst x < length (heap g)" by simp
    moreover from p have "last p \<in> set p" by simp
    ultimately have a: "fst (last p) < length rows" using len by auto
    from e(2) have "target \<in> set end_stations" by (rule first_named_Some)
    with wf e(1) len have b: "target < length rows" unfolding well_formed_def by auto
    from id a b have "fst (rows ! fst (last p)) = fst (rows ! target)"
      unfolding g_def by (simp add: load_from_csv_fields)
    with a b have "map fst rows ! fst (last p) = map fst rows ! target" by simp
    moreover from a b have "fst (last p) < length (map fst rows)" "target < length (map fst rows)"
      by simp_all
    ultimately show ?thesis using d nth_eq_iff_index_eq [of "map fst rows" "fst (last p)" target]
      by blast
  qed
  from p have "p \<noteq> []" "\<not> snd (hd p)" "fst (hd p) = start" by simp_all
  with s e id same show ?thesis by blast
qed

text \<open>
  Claim C6. On a network loaded from rows with unique ids, as the data model requires,
  every path that \<open>find_route\<close> returns is not empty; its first stop is the first stop
  of the start line whose name is the start name; its last stop is the first stop of
  the end line whose name is the end name; the transfer flag of its first element is
  false.
\<close>

theorem endpoints:
  fixes rows defines "g \<equiv> load_from_csv SubwaySystem_init rows"
  assumes "distinct (map fst rows)"
    and "find_route depth g start_line start_station end_line end_station = Some (Inr paths)"
    and "p \<in> set paths"
  shows "p \<noteq> [] \<and> \<not> snd (hd p)
         \<and> (\<exists>start_stations. map_of (lines g) start_line = Some start_stations
               \<and> first_named g start_stations start_station = Some (fst (hd p)))
         \<and> (\<exists>end_stations. map_of (lines g) end_line = Some end_stations
               \<and> first_named g end_stations end_station = Some (fst (last p)))"
proof -
  from endpoints_by_id [OF assms(3,4) [unfolded g_def]] assms(2)
  show ?thesis unfolding g_def by blast
qed

theorem endpoints_witness:
  "find_route 4 scenario ''A'' ''X'' ''B'' ''W''
     = Some (Inr [[(0, False), (1, False), (3, True), (4, False)]])
   \<and> distinct (map fst scenario_rows)
   \<and> \<not> snd (hd [(0::nat, False), (1, False), (3, True), (4, False)])
   \<and> (\<exists>start_stations. map_of (lines scenario) ''A'' = Some start_stations
         \<and> first_named scenario start_stations ''X''
             = Some (fst (hd [(0::nat, False), (1, False), (3, True), (4, False)])))
   \<and> (\<exists>end_stations. map_of (lines scenario) ''B'' = Some end_stations
         \<and> first_named scenario end_stations ''W''
             = Some (fst (last [(0::nat, False), (1, False), (3, True), (4, False)])))"
proof -
  let ?p = "[(0::nat, False), (1, False), (3, True), (4, False)]"
  let ?g = "load_from_csv SubwaySystem_init scenario_rows"
  have r: "find_route 4 ?g ''A'' ''X'' ''B'' ''W'' = Some (Inr [?p])"
    unfolding scenario_def [symmetric] by (rule scenario_cross)
  have 1: "?p \<in> set [?p]" by simp
  have d: "distinct (map fst scenario_rows)" by (simp add: scenario_rows_def)
  from endpoints [OF d r 1] d r show ?thesis
    unfolding scenario_def [symmetric] by blast
qed

text \<open>
  Claim C10. In every path that \<open>find_route\<close> returns on a loaded network, the ids of
  the stops are pairwise distinct, and the loop of the signature keeps every one of
  them: \<open>processed_ids\<close> is the list of the ids of the path.
\<close>

theorem returned_paths_simple:
  fixes rows defines "g \<equiv> load_from_csv SubwaySystem_init rows"
  assumes "find_route depth g start_line start_station end_line end_station = Some (Inr paths)"
    and "p \<in> set paths"
  shows "distinct (path_ids g p) \<and> processed_ids (path_ids g p) = path_ids g p"
proof -
  from find_route_paths [OF assms(2,3)] obtain start target rest where
    p: "p = (start, False) # rest" and c: "chain g target [(start, False)] rest"
    by blast
  have "distinct (path_ids g [(start, False)])" by (simp add: path_ids_def)
  from chain_distinct [OF c this] p have "distinct (path_ids g p)" by simp
  then show ?thesis by (simp add: processed_ids_distinct)
qed

theorem returned_paths_simple_witness:
  "find_route 4 scenario ''A'' ''X'' ''B'' ''W''
     = Some (Inr [[(0, False), (1, False), (3, True), (4, False)]])
   \<and> distinct (path_ids scenario [(0, False), (1, False), (3, True), (4, False)])
   \<and> processed_ids (path_ids scenario [(0, False), (1, False), (3, True), (4, False)])
       = path_ids scenario [(0, False), (1, False), (3, True), (4, False)]"
proof -
  let ?p = "[(0::nat, False), (1, False), (3, True), (4, False)]"
  let ?g = "load_from_csv SubwaySystem_init scenario_rows"
  have r: "find_route 4 ?g ''A'' ''X'' ''B'' ''W'' = Some (Inr [?p])"
    unfolding scenario_def [symmetric] by (rule scenario_cross)
  have 1: "?p \<in> set [?p]" by simp
  from returned_paths_simple [OF r 1] r show ?thesis
    unfolding scenario_def [symmetric] by simp
qed

section \<open>Termination\<close>

lemma call_returnsD:
  assumes "call_returns self k call" and "c < length (heap self)"
    and "visited st = set (path_ids self (current_path st))" and "visited st \<subseteq> all_ids self"
    and "station_id (heap self ! c) \<notin> visited st" and "card (all_ids self - visited st) \<le> k"
  shows "call c flag st \<noteq> None"
  using assms unfolding call_returns_def by blast

lemma same_state:
  assumes "visited t = visited st \<and> current_path t = current_path st"
    and "visited st = set (path_ids self (current_path st))"
    and "visited st \<subseteq> all_ids self" and "card (all_ids self - visited st) \<le> k"
  shows "visited t = set (path_ids self (current_path t))" and "visited t \<subseteq> all_ids self"
    and "card (all_ids self - visited t) \<le> k"
  using assms by simp_all

lemma and_then_returns: "m \<noteq> None \<Longrightarrow> (\<And>x. m = Some (Inr x) \<Longrightarrow> f x \<noteq> None) \<Longrightarrow> and_then m f \<noteq> None"
  by (auto simp: and_then_def split: option.splits sum.splits)

lemma for_each_returns:
  assumes "J s"
    and "\<And>x t. x \<in> set xs \<Longrightarrow> J t \<Longrightarrow> body x t \<noteq> None \<and> (\<forall>t'. body x t = Some (Inr t') \<longrightarrow> J t')"
  shows "for_each body xs s \<noteq> None"
  using assms
proof (induction xs arbitrary: s)
  case Nil
  then show ?case by simp
next
  case (Cons x xs)
  from Cons.prems(2) [of x s] Cons.prems(1)
  have b: "body x s \<noteq> None" and j: "\<And>t'. body x s = Some (Inr t') \<Longrightarrow> J t'" by simp_all
  have "for_each body xs t' \<noteq> None" if "body x s = Some (Inr t')" for t'
  proof (rule Cons.IH [OF j [OF that]])
    fix y t assume "y \<in> set xs" "J t"
    with Cons.prems(2) [of y t]
    show "body y t \<noteq> None \<and> (\<forall>t'. body y t = Some (Inr t') \<longrightarrow> J t')" by simp
  qed
  with b show ?case by (simp add: and_then_returns)
qed

lemma call_keeps:
  assumes "call_ok self target call" and "visited t = set (path_ids self (current_path t))"
    and "call b flag t = Some (Inr t')"
  shows "visited t' = visited t \<and> current_path t' = current_path t"
  using assms unfolding call_ok_def extends_by_def by blast

lemma explore_transfers_returns:
  assumes ok: "call_ok self target call" and ret: "call_returns self k call"
    and inv: "visited st = set (path_ids self (current_path st))"
    and sub: "visited st \<subseteq> all_ids self" and k: "card (all_ids self - visited st) \<le> k"
    and ts: "\<And>b. b \<in> set transfers \<Longrightarrow>
               b < length (heap self) \<and> station_id (heap self ! b) \<notin> visited st"
  shows "explore_transfers call transfers st \<noteq> None"
  unfolding explore_transfers_def
proof (rule for_each_returns
    [where J = "\<lambda>t::search_state. visited t = visited st \<and> current_path t = current_path st"])
  show "visited st = visited st \<and> current_path st = current_path st" by simp
next
  fix b and t :: search_state
  assume b: "b \<in> set transfers" and t: "visited t = visited st \<and> current_path t = current_path st"
  from ts [OF b] t have vb: "b < length (heap self)"
    and nb: "station_id (heap self ! b) \<notin> visited t"
    by simp_all
  note ss = same_state [OF t inv sub k]
  from call_returnsD [OF ret vb ss(1) ss(2) nb ss(3)]
  have "call b True t \<noteq> None" .
  moreover have "visited t' = visited st \<and> current_path t' = current_path st"
    if "call b True t = Some (Inr t')" for t'
    using call_keeps [OF ok _ that] inv t by simp
  ultimately show "call b True t \<noteq> None
      \<and> (\<forall>t'. call b True t = Some (Inr t') \<longrightarrow> visited t' = visited st \<and> current_path t' = current_path st)"
    by blast
qed

lemma explore_neighbours_returns:
  assumes ok: "call_ok self target call" and ret: "call_returns self k call"
    and inv: "visited st = set (path_ids self (current_path st))"
    and sub: "visited st \<subseteq> all_ids self" and k: "card (all_ids self - visited st) \<le> k"
    and ns: "\<And>b. prev current = Some b \<or> next_station current = Some b \<Longrightarrow> b < length (heap self)"
  shows "explore_neighbours call self current st \<noteq> None"
  unfolding explore_neighbours_def
proof (rule for_each_returns
    [where J = "\<lambda>t::search_state. visited t = visited st \<and> current_path t = current_path st"])
  show "visited st = visited st \<and> current_path st = current_path st" by simp
next
  fix x and t :: search_state
  assume x: "x \<in> set [prev current, next_station current]"
    and t: "visited t = visited st \<and> current_path t = current_path st"
  let ?body = "case x of None \<Rightarrow> Some (Inr t)
               | Some n \<Rightarrow> if station_id (heap self ! n) \<notin> visited t then call n False t
                           else Some (Inr t)"
  show "?body \<noteq> None
      \<and> (\<forall>t'. ?body = Some (Inr t') \<longrightarrow> visited t' = visited st \<and> current_path t' = current_path st)"
  proof (cases x)
    case None
    with t show ?thesis by simp
  next
    case (Some n)
    show ?thesis
    proof (cases "station_id (heap self ! n) \<notin> visited t")
      case False
      with Some t show ?thesis by simp
    next
      case True
      from x Some have "prev current = Some n \<or> next_station current = Some n" by auto
      then have "n < length (heap self)" by (rule ns)
      note ss = same_state [OF t inv sub k]
      from call_returnsD [OF ret \<open>n < length (heap self)\<close> ss(1) ss(2) True ss(3)]
      have r: "call n False t \<noteq> None" .
      have keep: "visited t' = visited st \<and> current_path t' = current_path st"
        if "call n False t = Some (Inr t')" for t'
        using call_keeps [OF ok _ that] inv t by simp
      have eq: "?body = call n False t" using Some True by simp
      show ?thesis unfolding eq using r keep by blast
    qed
  qed
qed

lemma explore_transfers_keeps:
  assumes ok: "call_ok self target call"
    and inv: "visited st = set (path_ids self (current_path st))"
    and run: "explore_transfers call transfers st = Some (Inr st')"
  shows "visited st' = visited st \<and> current_path st' = current_path st"
proof (rule for_each_invariant [OF run [unfolded explore_transfers_def],
    where I = "\<lambda>t::search_state. visited t = visited st \<and> current_path t = current_path st"])
  show "visited st = visited st \<and> current_path st = current_path st" by simp
next
  fix b and t t' :: search_state
  assume t: "visited t = visited st \<and> current_path t = current_path st"
    and c: "call b True t = Some (Inr t')"
  from call_keeps [OF ok _ c] inv t
  show "visited t' = visited st \<and> current_path t' = current_path st" by simp
qed

lemma expand_returns:
  assumes wf: "well_formed self"
    and ok: "call_ok self target call" and ret: "call_returns self k call"
    and inv: "visited st = set (path_ids self (current_path st))"
    and sub: "visited st \<subseteq> all_ids self" and k: "card (all_ids self - visited st) \<le> k"
    and c: "c < length (heap self)"
  shows "expand call self (heap self ! c) (heap self ! target) st \<noteq> None"
proof -
  let ?cur = "heap self ! c"
  let ?tgt = "heap self ! target"
  from wf have "links_below (length (heap self)) (heap self)" by (simp add: well_formed_def)
  from links_below_nth [OF this c]
  have ns: "\<And>b. prev ?cur = Some b \<or> next_station ?cur = Some b \<Longrightarrow> b < length (heap self)"
    by blast
  from wf have st: "\<And>i a. map_of (stations self) i = Some a \<Longrightarrow> a < length (heap self)"
    by (simp add: well_formed_def)
  show ?thesis
  proof (cases "line ?cur = line ?tgt")
    case True
    with explore_neighbours_returns [OF ok ret inv sub k ns] show ?thesis
      by (simp add: expand_def)
  next
    case False
    show ?thesis
    proof (cases "partition_transfers self ?tgt (visited st) (transfer_ids ?cur) ([], [])")
      case (Inl e)
      with False show ?thesis by (simp add: expand_def)
    next
      case (Inr lists)
      obtain tlt ot where lists: "lists = (tlt, ot)" by (cases lists)
      from partition_transfers_members [OF Inr [unfolded lists]] st
      have ts: "\<And>b. b \<in> set tlt \<union> set ot \<Longrightarrow>
                  b < length (heap self) \<and> station_id (heap self ! b) \<notin> visited st"
        by auto
      show ?thesis
      proof (cases "tlt \<noteq> []")
        case True
        have "explore_transfers call tlt st \<noteq> None"
          by (rule explore_transfers_returns [OF ok ret inv sub k]) (use ts in simp)
        with False Inr lists True show ?thesis by (simp add: expand_def)
      next
        case empty: False
        have 1: "explore_transfers call ot st \<noteq> None"
          by (rule explore_transfers_returns [OF ok ret inv sub k]) (use ts in simp)
        have 2: "explore_neighbours call self ?cur st1 \<noteq> None"
          if r: "explore_transfers call ot st = Some (Inr st1)" for st1
        proof -
          from explore_transfers_keeps [OF ok inv r]
          have same: "visited st1 = visited st \<and> current_path st1 = current_path st" by simp
          note ss = same_state [OF same inv sub k]
          show ?thesis
            by (rule explore_neighbours_returns [OF ok ret ss(1) ss(2) ss(3) ns])
        qed
        from and_then_returns [OF 1 2] False Inr lists empty show ?thesis
          by (simp add: expand_def)
      qed
    qed
  qed
qed

lemma backtrack_returns: "Some (backtrack current st) \<noteq> None"
  by simp

lemma dfs_body_returns:
  assumes wf: "well_formed self"
    and ok: "call_ok self target call" and ret: "call_returns self k call"
  shows "call_returns self (Suc k) (\<lambda>c. dfs_body call self c target)"
  unfolding call_returns_def
proof (intro allI impI, elim conjE)
  fix c flag and st :: search_state
  assume c: "c < length (heap self)" and inv: "visited st = set (path_ids self (current_path st))"
    and sub: "visited st \<subseteq> all_ids self"
    and new: "station_id (heap self ! c) \<notin> visited st"
    and k: "card (all_ids self - visited st) \<le> Suc k"
  let ?cur = "heap self ! c"
  define st1 where "st1 = st\<lparr>visited := insert (station_id ?cur) (visited st),
                               current_path := current_path st @ [(c, flag)]\<rparr>"
  have body: "dfs_body call self c target flag st = and_then
             (if station_id ?cur = station_id (heap self ! target) then Some (Inr (accept self st1))
              else expand call self ?cur (heap self ! target) st1)
             (\<lambda>st2. Some (backtrack ?cur st2))"
    unfolding dfs_body_def Let_def st1_def by (simp only: new if_False)
  have fin: "finite (all_ids self)" by (simp add: all_ids_def)
  from c have mem: "station_id ?cur \<in> all_ids self" by (simp add: all_ids_def)
  have v1: "visited st1 = insert (station_id ?cur) (visited st)" by (simp add: st1_def)
  from sub mem have sub1: "visited st1 \<subseteq> all_ids self" by (simp add: v1)
  have "all_ids self - visited st = insert (station_id ?cur) (all_ids self - visited st1)"
    using mem new by (auto simp: v1)
  moreover have "station_id ?cur \<notin> all_ids self - visited st1" by (simp add: v1)
  ultimately have "card (all_ids self - visited st) = Suc (card (all_ids self - visited st1))"
    using fin by simp
  with k have k1: "card (all_ids self - visited st1) \<le> k" by simp
  show "dfs_body call self c target flag st \<noteq> None"
  proof (cases "station_id ?cur = station_id (heap self ! target)")
    case True
    then show ?thesis by (simp add: body and_then_def)
  next
    case False
    have inv1: "visited st1 = set (path_ids self (current_path st1))"
      by (simp add: st1_def inv path_ids_def)
    have "expand call self ?cur (heap self ! target) st1 \<noteq> None"
      by (rule expand_returns [OF wf ok ret inv1 sub1 k1 c])
    with False show ?thesis by (simp add: body and_then_returns)
  qed
qed

lemma dfs_returns:
  assumes wf: "well_formed self"
  shows "call_returns self k (\<lambda>c. dfs k self c target)"
proof (induction k)
  case 0
  have "card (all_ids self - visited st) \<noteq> 0"
    if "c < length (heap self)" "station_id (heap self ! c) \<notin> visited st"
    for c and st :: search_state
  proof -
    from that have "station_id (heap self ! c) \<in> all_ids self - visited st"
      by (simp add: all_ids_def)
    moreover have "finite (all_ids self - visited st)" by (simp add: all_ids_def)
    ultimately show ?thesis by auto
  qed
  then have "card (all_ids self - visited st) \<le> 0 \<longrightarrow>
               \<not> (c < length (heap self) \<and> station_id (heap self ! c) \<notin> visited st)"
    for c and st :: search_state
    by blast
  then show ?case unfolding call_returns_def by blast
next
  case (Suc k)
  from dfs_body_returns [OF wf dfs_ok Suc] show ?case by simp
qed

lemma find_route_returns:
  assumes wf: "well_formed self" and d: "card (all_ids self) \<le> depth"
  shows "find_route depth self start_line start_station end_line end_station \<noteq> None"
proof -
  have "dfs depth self start target False initial_state \<noteq> None"
    if s: "first_named self start_stations start_station = Some start"
      and l: "map_of (lines self) start_line = Some start_stations"
    for start_stations start target
  proof (cases "station_id (heap self ! start) \<in> visited initial_state")
    case True
    then show ?thesis by (simp add: initial_state_def)
  next
    case False
    from s have "start \<in> set start_stations" by (rule first_named_Some)
    with wf l have v: "start < length (heap self)" unfolding well_formed_def by blast
    show ?thesis
      by (rule call_returnsD [OF dfs_returns [OF wf] v _ _ False])
         (simp_all add: initial_state_def path_ids_def d)
  qed
  note run = this
  show ?thesis
  proof (cases "map_of (lines self) start_line")
    case None
    then show ?thesis by (simp add: find_route_def)
  next
    case s: (Some start_stations)
    show ?thesis
    proof (cases "map_of (lines self) end_line")
      case None
      with s show ?thesis by (simp add: find_route_def)
    next
      case e: (Some end_stations)
      show ?thesis
      proof (cases "first_named self start_stations start_station")
        case None
        with s e show ?thesis by (simp add: find_route_def)
      next
        case st: (Some start)
        show ?thesis
        proof (cases "first_named self end_stations end_station")
          case None
          with s e st show ?thesis by (simp add: find_route_def)
        next
          case (Some target)
          from run [OF st s, of target]
          have "and_then (dfs depth self start target False initial_state)
                  (\<lambda>st. Some (Inr (all_paths st))) \<noteq> None"
            by (intro and_then_returns) simp_all
          with s e st Some show ?thesis by (simp add: find_route_def)
        qed
      qed
    qed
  qed
qed

lemma all_ids_load: "all_ids (load_from_csv SubwaySystem_init rows) = set (map fst rows)"
proof -
  let ?g = "load_from_csv SubwaySystem_init rows"
  have "map station_id (heap ?g) = map fst rows"
    by (rule nth_equalityI) (simp_all add: load_from_csv_length load_from_csv_fields)
  then have "set (map station_id (heap ?g)) = set (map fst rows)" by simp
  then show ?thesis by (simp add: all_ids_def)
qed

section \<open>No error on a resolvable network\<close>

lemma and_then_no_error:
  "m \<noteq> Some (Inl e) \<Longrightarrow> (\<And>x. m = Some (Inr x) \<Longrightarrow> f x \<noteq> Some (Inl e)) \<Longrightarrow>
     and_then m f \<noteq> Some (Inl e)"
  by (auto simp: and_then_def split: option.splits sum.splits)

lemma for_each_no_error:
  assumes "J s"
    and "\<And>x t. x \<in> set xs \<Longrightarrow> J t \<Longrightarrow>
           body x t \<noteq> Some (Inl e) \<and> (\<forall>t'. body x t = Some (Inr t') \<longrightarrow> J t')"
  shows "for_each body xs s \<noteq> Some (Inl e)"
  using assms
proof (induction xs arbitrary: s)
  case Nil
  then show ?case by simp
next
  case (Cons x xs)
  from Cons.prems(2) [of x s] Cons.prems(1)
  have b: "body x s \<noteq> Some (Inl e)" and j: "\<And>t'. body x s = Some (Inr t') \<Longrightarrow> J t'"
    by simp_all
  have "for_each body xs t' \<noteq> Some (Inl e)" if "body x s = Some (Inr t')" for t'
  proof (rule Cons.IH [OF j [OF that]])
    fix y t assume "y \<in> set xs" "J t"
    with Cons.prems(2) [of y t]
    show "body y t \<noteq> Some (Inl e) \<and> (\<forall>t'. body y t = Some (Inr t') \<longrightarrow> J t')" by simp
  qed
  with b show ?case by (simp add: and_then_no_error)
qed

lemma call_safeD:
  assumes "call_safe self call" and "c < length (heap self)"
    and "visited st = set (path_ids self (current_path st))"
  shows "call c flag st \<noteq> Some (Inl e)"
  using assms unfolding call_safe_def by blast

lemma explore_transfers_safe:
  assumes ok: "call_ok self target call" and safe: "call_safe self call"
    and inv: "visited st = set (path_ids self (current_path st))"
    and ts: "\<And>b. b \<in> set transfers \<Longrightarrow> b < length (heap self)"
  shows "explore_transfers call transfers st \<noteq> Some (Inl e)"
  unfolding explore_transfers_def
proof (rule for_each_no_error
    [where J = "\<lambda>t::search_state. visited t = visited st \<and> current_path t = current_path st"])
  show "visited st = visited st \<and> current_path st = current_path st" by simp
next
  fix b and t :: search_state
  assume b: "b \<in> set transfers" and t: "visited t = visited st \<and> current_path t = current_path st"
  from t inv have it: "visited t = set (path_ids self (current_path t))" by simp
  from call_safeD [OF safe ts [OF b] it] have "call b True t \<noteq> Some (Inl e)" .
  moreover have "visited t' = visited st \<and> current_path t' = current_path st"
    if "call b True t = Some (Inr t')" for t'
    using call_keeps [OF ok it that] t by simp
  ultimately show "call b True t \<noteq> Some (Inl e)
      \<and> (\<forall>t'. call b True t = Some (Inr t') \<longrightarrow> visited t' = visited st \<and> current_path t' = current_path st)"
    by blast
qed

lemma explore_neighbours_keeps:
  assumes ok: "call_ok self target call"
    and inv: "visited st = set (path_ids self (current_path st))"
    and run: "explore_neighbours call self current st = Some (Inr st')"
  shows "visited st' = visited st \<and> current_path st' = current_path st"
proof (rule for_each_invariant [OF run [unfolded explore_neighbours_def],
    where I = "\<lambda>t::search_state. visited t = visited st \<and> current_path t = current_path st"])
  show "visited st = visited st \<and> current_path st = current_path st" by simp
next
  fix x and t t' :: search_state
  assume t: "visited t = visited st \<and> current_path t = current_path st"
    and b: "(case x of None \<Rightarrow> Some (Inr t)
             | Some n \<Rightarrow> if station_id (heap self ! n) \<notin> visited t then call n False t
                         else Some (Inr t)) = Some (Inr t')"
  from t inv have it: "visited t = set (path_ids self (current_path t))" by simp
  show "visited t' = visited st \<and> current_path t' = current_path st"
  proof (cases x)
    case None
    with b t show ?thesis by simp
  next
    case (Some n)
    show ?thesis
    proof (cases "station_id (heap self ! n) \<notin> visited t")
      case True
      with b Some have "call n False t = Some (Inr t')" by simp
      from call_keeps [OF ok it this] t show ?thesis by simp
    next
      case False
      with b Some t show ?thesis by simp
    qed
  qed
qed

lemma explore_neighbours_safe:
  assumes ok: "call_ok self target call" and safe: "call_safe self call"
    and inv: "visited st = set (path_ids self (current_path st))"
    and ns: "\<And>b. prev current = Some b \<or> next_station current = Some b \<Longrightarrow> b < length (heap self)"
  shows "explore_neighbours call self current st \<noteq> Some (Inl e)"
  unfolding explore_neighbours_def
proof (rule for_each_no_error
    [where J = "\<lambda>t::search_state. visited t = visited st \<and> current_path t = current_path st"])
  show "visited st = visited st \<and> current_path st = current_path st" by simp
next
  fix x and t :: search_state
  assume x: "x \<in> set [prev current, next_station current]"
    and t: "visited t = visited st \<and> current_path t = current_path st"
  from t inv have it: "visited t = set (path_ids self (current_path t))" by simp
  let ?body = "case x of None \<Rightarrow> Some (Inr t)
               | Some n \<Rightarrow> if station_id (heap self ! n) \<notin> visited t then call n False t
                           else Some (Inr t)"
  show "?body \<noteq> Some (Inl e)
      \<and> (\<forall>t'. ?body = Some (Inr t') \<longrightarrow> visited t' = visited st \<and> current_path t' = current_path st)"
  proof (cases x)
    case None
    with t show ?thesis by simp
  next
    case (Some n)
    show ?thesis
    proof (cases "station_id (heap self ! n) \<notin> visited t")
      case False
      with Some t show ?thesis by simp
    next
      case True
      from x Some have "prev current = Some n \<or> next_station current = Some n" by auto
      then have "n < length (heap self)" by (rule ns)
      from call_safeD [OF safe this it] have r: "call n False t \<noteq> Some (Inl e)" .
      have keep: "visited t' = visited st \<and> current_path t' = current_path st"
        if "call n False t = Some (Inr t')" for t'
        using call_keeps [OF ok it that] t by simp
      have eq: "?body = call n False t" using Some True by simp
      show ?thesis unfolding eq using r keep by blast
    qed
  qed
qed

lemma partition_transfers_resolves:
  "\<forall>transfer_id \<in> set tids. map_of (stations self) transfer_id \<noteq> None \<Longrightarrow>
     partition_transfers self t vis tids acc \<noteq> Inl e"
proof (induction tids arbitrary: acc)
  case Nil
  then show ?case by simp
next
  case (Cons tid tids)
  obtain A B where acc: "acc = (A, B)" by (cases acc)
  from Cons.prems obtain ts where "map_of (stations self) tid = Some ts" by auto
  with Cons.IH Cons.prems show ?case unfolding acc by simp
qed

lemma expand_safe:
  assumes wf: "well_formed self" and res: "resolvable self"
    and ok: "call_ok self target call" and safe: "call_safe self call"
    and inv: "visited st = set (path_ids self (current_path st))"
    and c: "c < length (heap self)"
  shows "expand call self (heap self ! c) (heap self ! target) st \<noteq> Some (Inl e)"
proof -
  let ?cur = "heap self ! c"
  let ?tgt = "heap self ! target"
  from wf have "links_below (length (heap self)) (heap self)" by (simp add: well_formed_def)
  from links_below_nth [OF this c]
  have ns: "\<And>b. prev ?cur = Some b \<or> next_station ?cur = Some b \<Longrightarrow> b < length (heap self)"
    by blast
  from wf have st: "\<And>i a. map_of (stations self) i = Some a \<Longrightarrow> a < length (heap self)"
    by (simp add: well_formed_def)
  show ?thesis
  proof (cases "line ?cur = line ?tgt")
    case True
    with explore_neighbours_safe [OF ok safe inv ns] show ?thesis
      by (simp add: expand_def)
  next
    case False
    from res c have "\<forall>transfer_id \<in> set (transfer_ids ?cur). map_of (stations self) transfer_id \<noteq> None"
      unfolding resolvable_def using nth_mem [of c "heap self"] by blast
    from partition_transfers_resolves [OF this]
    obtain tlt ot where
      p: "partition_transfers self ?tgt (visited st) (transfer_ids ?cur) ([], []) = Inr (tlt, ot)"
      by (cases "partition_transfers self ?tgt (visited st) (transfer_ids ?cur) ([], [])") auto
    from partition_transfers_members [OF p] st
    have ts: "\<And>b. b \<in> set tlt \<union> set ot \<Longrightarrow> b < length (heap self)"
      by auto
    show ?thesis
    proof (cases "tlt \<noteq> []")
      case True
      have "explore_transfers call tlt st \<noteq> Some (Inl e)"
        by (rule explore_transfers_safe [OF ok safe inv]) (use ts in simp)
      with False p True show ?thesis by (simp add: expand_def)
    next
      case empty: False
      have 1: "explore_transfers call ot st \<noteq> Some (Inl e)"
        by (rule explore_transfers_safe [OF ok safe inv]) (use ts in simp)
      have 2: "explore_neighbours call self ?cur st1 \<noteq> Some (Inl e)"
        if r: "explore_transfers call ot st = Some (Inr st1)" for st1
      proof -
        from explore_transfers_keeps [OF ok inv r] inv
        have "visited st1 = set (path_ids self (current_path st1))" by simp
        from explore_neighbours_safe [OF ok safe this ns] show ?thesis .
      qed
      from and_then_no_error [OF 1 2] False p empty show ?thesis
        by (simp add: expand_def)
    qed
  qed
qed

lemma expand_keeps:
  assumes ok: "call_ok self target call"
    and inv: "visited st = set (path_ids self (current_path st))"
    and run: "expand call self current tgt st = Some (Inr st')"
  shows "visited st' = visited st \<and> current_path st' = current_path st"
proof (cases "line current = line tgt")
  case True
  with run have "explore_neighbours call self current st = Some (Inr st')" by (simp add: expand_def)
  from explore_neighbours_keeps [OF ok inv this] show ?thesis .
next
  case False
  with run obtain tlt ot where
    p: "partition_transfers self tgt (visited st) (transfer_ids current) ([], []) = Inr (tlt, ot)"
    by (auto simp: expand_def split: sum.splits)
  show ?thesis
  proof (cases "tlt \<noteq> []")
    case True
    with run False p have "explore_transfers call tlt st = Some (Inr st')" by (simp add: expand_def)
    from explore_transfers_keeps [OF ok inv this] show ?thesis .
  next
    case empty: False
    with run False p obtain st1 where r1: "explore_transfers call ot st = Some (Inr st1)"
      and r2: "explore_neighbours call self current st1 = Some (Inr st')"
      by (auto simp: expand_def and_then_Some_iff)
    from explore_transfers_keeps [OF ok inv r1]
    have same: "visited st1 = visited st" "current_path st1 = current_path st" by simp_all
    with inv have "visited st1 = set (path_ids self (current_path st1))" by simp
    from explore_neighbours_keeps [OF ok this r2] same show ?thesis by simp
  qed
qed

lemma accept_keeps: "visited (accept self st) = visited st \<and> current_path (accept self st) = current_path st"
  by (simp add: accept_def Let_def)

lemma dfs_body_safe:
  assumes wf: "well_formed self" and res: "resolvable self"
    and ok: "call_ok self target call" and safe: "call_safe self call"
  shows "call_safe self (\<lambda>c. dfs_body call self c target)"
  unfolding call_safe_def
proof (intro allI impI, elim conjE)
  fix c flag e and st :: search_state
  assume c: "c < length (heap self)" and inv: "visited st = set (path_ids self (current_path st))"
  let ?cur = "heap self ! c"
  show "dfs_body call self c target flag st \<noteq> Some (Inl e)"
  proof (cases "station_id ?cur \<in> visited st")
    case True
    then show ?thesis by (simp add: dfs_body_def)
  next
    case new: False
    define st1 where "st1 = st\<lparr>visited := insert (station_id ?cur) (visited st),
                                 current_path := current_path st @ [(c, flag)]\<rparr>"
    have body: "dfs_body call self c target flag st = and_then
               (if station_id ?cur = station_id (heap self ! target) then Some (Inr (accept self st1))
                else expand call self ?cur (heap self ! target) st1)
               (\<lambda>st2. Some (backtrack ?cur st2))"
      unfolding dfs_body_def Let_def st1_def by (simp only: new if_False)
    have inv1: "visited st1 = set (path_ids self (current_path st1))"
      by (simp add: st1_def inv path_ids_def)
    have p1: "current_path st1 \<noteq> []" and v1: "station_id ?cur \<in> visited st1"
      by (simp_all add: st1_def)
    have bt: "Some (backtrack ?cur st2) \<noteq> Some (Inl e)"
      if "visited st2 = visited st1 \<and> current_path st2 = current_path st1" for st2
      using that p1 v1 by (simp add: backtrack_def)
    show ?thesis
    proof (cases "station_id ?cur = station_id (heap self ! target)")
      case True
      from bt [OF accept_keeps [of self st1]] True show ?thesis
        by (simp add: body and_then_def)
    next
      case False
      have 1: "expand call self ?cur (heap self ! target) st1 \<noteq> Some (Inl e)"
        by (rule expand_safe [OF wf res ok safe inv1 c])
      have 2: "Some (backtrack ?cur st2) \<noteq> Some (Inl e)"
        if "expand call self ?cur (heap self ! target) st1 = Some (Inr st2)" for st2
        by (rule bt [OF expand_keeps [OF ok inv1 that]])
      from and_then_no_error [OF 1 2] False show ?thesis by (simp add: body)
    qed
  qed
qed

lemma dfs_safe:
  assumes wf: "well_formed self" and res: "resolvable self"
  shows "call_safe self (\<lambda>c. dfs k self c target)"
proof (induction k)
  case 0
  show ?case by (simp add: call_safe_def)
next
  case (Suc k)
  from dfs_body_safe [OF wf res dfs_ok Suc] show ?case by simp
qed

lemma dom_stations_first_loop: "dom (map_of (stations (first_loop rows))) = fst ` set rows"
proof (induction rows rule: rev_induct)
  case Nil
  show ?case by (simp add: first_loop_Nil SubwaySystem_init_def)
next
  case (snoc r rows)
  have "map_of (stations (first_loop (rows @ [r])))
          = (map_of (stations (first_loop rows)))(fst r \<mapsto> length (heap (first_loop rows)))"
    by (simp add: first_loop_snoc stations_add_row update_conv')
  then have "dom (map_of (stations (first_loop (rows @ [r]))))
               = insert (fst r) (dom (map_of (stations (first_loop rows))))"
    by (simp only: dom_fun_upd) simp
  with snoc show ?case by simp
qed

lemma resolvable_load:
  assumes "\<forall>r \<in> set rows. \<forall>transfer_id \<in> set (snd (snd (snd r))). transfer_id \<in> fst ` set rows"
  shows "resolvable (load_from_csv SubwaySystem_init rows)"
  unfolding resolvable_def
proof (intro ballI)
  let ?g = "load_from_csv SubwaySystem_init rows"
  fix s transfer_id
  assume "s \<in> set (heap ?g)" and t: "transfer_id \<in> set (transfer_ids s)"
  then obtain a where a: "a < length rows" and s: "s = heap ?g ! a"
    by (auto simp: in_set_conv_nth load_from_csv_length)
  from t a s have "transfer_id \<in> set (snd (snd (snd (rows ! a))))"
    by (simp add: load_from_csv_fields)
  with assms a have "transfer_id \<in> fst ` set rows" using nth_mem [of a rows] by blast
  then have "transfer_id \<in> dom (map_of (stations (first_loop rows)))"
    by (simp only: dom_stations_first_loop)
  then show "map_of (stations ?g) transfer_id \<noteq> None"
    by (auto simp: load_from_csv_stations)
qed

text \<open>
  When every transfer id of the rows is the id of a row and both lines of the query
  are lines of rows, the search raises no error: it returns a list of paths.
\<close>

lemma find_route_returns_paths:
  assumes res: "\<forall>r \<in> set rows. \<forall>transfer_id \<in> set (snd (snd (snd r))). transfer_id \<in> fst ` set rows"
    and sl: "start_line \<in> row_line ` set rows" and el: "end_line \<in> row_line ` set rows"
    and d: "card (set (map fst rows)) \<le> depth"
  shows "\<exists>paths. find_route depth (load_from_csv SubwaySystem_init rows)
                    start_line start_station end_line end_station = Some (Inr paths)"
proof -
  let ?g = "load_from_csv SubwaySystem_init rows"
  have wf: "well_formed ?g" by (rule well_formed_load)
  from find_route_returns [OF wf, of depth start_line start_station end_line end_station] d
  obtain outcome where o: "find_route depth ?g start_line start_station end_line end_station = Some outcome"
    by (auto simp: all_ids_load)
  from sl el obtain start_stations end_stations where
    s: "map_of (lines ?g) start_line = Some start_stations"
    and e: "map_of (lines ?g) end_line = Some end_stations"
    by (simp add: load_from_csv_lines lines_first_loop)
  have "outcome \<noteq> Inl err" for err
  proof (cases "first_named ?g start_stations start_station")
    case None
    with o s e show ?thesis by (auto simp: find_route_def)
  next
    case st: (Some start)
    show ?thesis
    proof (cases "first_named ?g end_stations end_station")
      case None
      with o s e st show ?thesis by (auto simp: find_route_def)
    next
      case (Some target)
      from st have "start \<in> set start_stations" by (rule first_named_Some)
      with wf s have v: "start < length (heap ?g)" unfolding well_formed_def by blast
      have "visited initial_state = set (path_ids ?g (current_path initial_state))"
        by (simp add: initial_state_def path_ids_def)
      from call_safeD [OF dfs_safe [OF wf resolvable_load [OF res]] v this]
      have "dfs depth ?g start target False initial_state \<noteq> Some (Inl err)" .
      then have "and_then (dfs depth ?g start target False initial_state)
                   (\<lambda>st. Some (Inr (all_paths st))) \<noteq> Some (Inl err)"
        by (intro and_then_no_error) simp_all
      with o s e st Some show ?thesis by (auto simp: find_route_def)
    qed
  qed
  then obtain paths where "outcome = Inr paths" by (cases outcome) auto
  with o show ?thesis by blast
qed

section \<open>The bound on the depth\<close>

text \<open>
  A call of \<open>dfs\<close> consults its nested calls only in states in which the id of its stop
  is in \<open>visited\<close> and its stop is the last of \<open>current_path\<close>: two functions that
  agree on these states give the same body.
\<close>

lemma and_then_agree:
  "(\<And>x. m = Some (Inr x) \<Longrightarrow> f x = f' x) \<Longrightarrow> and_then m f = and_then m f'"
  by (auto simp: and_then_def split: option.splits sum.splits)

lemma for_each_agree:
  assumes "Q s"
    and "\<And>x t. x \<in> set xs \<Longrightarrow> Q t \<Longrightarrow> body x t = body' x t"
    and "\<And>x t t'. x \<in> set xs \<Longrightarrow> Q t \<Longrightarrow> body' x t = Some (Inr t') \<Longrightarrow> Q t'"
  shows "for_each body xs s = for_each body' xs s"
  using assms
proof (induction xs arbitrary: s)
  case Nil
  show ?case by simp
next
  case (Cons x xs)
  have b: "body x s = body' x s" by (rule Cons.prems(2)) (simp_all add: Cons.prems(1))
  have "for_each body xs t' = for_each body' xs t'" if "body' x s = Some (Inr t')" for t'
  proof (rule Cons.IH)
    from Cons.prems(3) [OF _ Cons.prems(1) that] show "Q t'" by simp
  next
    fix y t assume "y \<in> set xs" "Q t"
    then show "body y t = body' y t" by (intro Cons.prems(2)) simp_all
  next
    fix y t t' assume "y \<in> set xs" "Q t" "body' y t = Some (Inr t')"
    then show "Q t'" using Cons.prems(3) [of y t t'] by simp
  qed
  then have "and_then (body' x s) (for_each body xs) = and_then (body' x s) (for_each body' xs)"
    by (rule and_then_agree)
  with b show ?case by simp
qed

lemma explore_transfers_agree:
  assumes ok: "call_ok self target call'"
    and inv: "visited st = set (path_ids self (current_path st))"
    and agree: "\<And>c f t. visited t = visited st \<and> current_path t = current_path st
                  \<Longrightarrow> call c f t = call' c f t"
  shows "explore_transfers call transfers st = explore_transfers call' transfers st"
  unfolding explore_transfers_def
proof (rule for_each_agree
    [where Q = "\<lambda>t::search_state. visited t = visited st \<and> current_path t = current_path st"])
  show "visited st = visited st \<and> current_path st = current_path st" by simp
next
  fix b and t :: search_state
  assume "visited t = visited st \<and> current_path t = current_path st"
  then show "call b True t = call' b True t" by (rule agree)
next
  fix b and t t' :: search_state
  assume t: "visited t = visited st \<and> current_path t = current_path st"
    and c: "call' b True t = Some (Inr t')"
  from t inv have "visited t = set (path_ids self (current_path t))" by simp
  from call_keeps [OF ok this c] t
  show "visited t' = visited st \<and> current_path t' = current_path st" by simp
qed

lemma explore_neighbours_agree:
  assumes ok: "call_ok self target call'"
    and inv: "visited st = set (path_ids self (current_path st))"
    and agree: "\<And>c f t. visited t = visited st \<and> current_path t = current_path st
                  \<Longrightarrow> call c f t = call' c f t"
  shows "explore_neighbours call self current st = explore_neighbours call' self current st"
  unfolding explore_neighbours_def
proof (rule for_each_agree
    [where Q = "\<lambda>t::search_state. visited t = visited st \<and> current_path t = current_path st"])
  show "visited st = visited st \<and> current_path st = current_path st" by simp
next
  fix x and t :: search_state
  assume "visited t = visited st \<and> current_path t = current_path st"
  from agree [OF this]
  show "(case x of None \<Rightarrow> Some (Inr t)
         | Some n \<Rightarrow> if station_id (heap self ! n) \<notin> visited t then call n False t
                     else Some (Inr t))
      = (case x of None \<Rightarrow> Some (Inr t)
         | Some n \<Rightarrow> if station_id (heap self ! n) \<notin> visited t then call' n False t
                     else Some (Inr t))"
    by (simp split: option.splits)
next
  fix x and t t' :: search_state
  assume t: "visited t = visited st \<and> current_path t = current_path st"
    and b: "(case x of None \<Rightarrow> Some (Inr t)
             | Some n \<Rightarrow> if station_id (heap self ! n) \<notin> visited t then call' n False t
                         else Some (Inr t)) = Some (Inr t')"
  from t inv have it: "visited t = set (path_ids self (current_path t))" by simp
  show "visited t' = visited st \<and> current_path t' = current_path st"
  proof (cases x)
    case None
    with b t show ?thesis by simp
  next
    case (Some n)
    show ?thesis
    proof (cases "station_id (heap self ! n) \<notin> visited t")
      case True
      with b Some have "call' n False t = Some (Inr t')" by simp
      from call_keeps [OF ok it this] t show ?thesis by simp
    next
      case False
      with b Some t show ?thesis by simp
    qed
  qed
qed

lemma expand_agree:
  assumes ok: "call_ok self target call'"
    and inv: "visited st = set (path_ids self (current_path st))"
    and agree: "\<And>c f t. visited t = visited st \<and> current_path t = current_path st
                  \<Longrightarrow> call c f t = call' c f t"
  shows "expand call self current tgt st = expand call' self current tgt st"
proof -
  have n: "explore_neighbours call self current st1 = explore_neighbours call' self current st1"
    if "visited st1 = visited st \<and> current_path st1 = current_path st" for st1
  proof (rule explore_neighbours_agree [OF ok])
    from that inv show "visited st1 = set (path_ids self (current_path st1))" by simp
  next
    fix c f and t :: search_state
    assume "visited t = visited st1 \<and> current_path t = current_path st1"
    with that have "visited t = visited st \<and> current_path t = current_path st" by simp
    then show "call c f t = call' c f t" by (rule agree)
  qed
  have t: "explore_transfers call transfers st = explore_transfers call' transfers st" for transfers
    by (rule explore_transfers_agree [OF ok inv agree])
  have "and_then (explore_transfers call' transfers st) (explore_neighbours call self current)
        = and_then (explore_transfers call' transfers st) (explore_neighbours call' self current)"
    for transfers
  proof (rule and_then_agree)
    fix st1 assume "explore_transfers call' transfers st = Some (Inr st1)"
    from explore_transfers_keeps [OF ok inv this]
    show "explore_neighbours call self current st1 = explore_neighbours call' self current st1"
      by (rule n)
  qed
  with t n [of st] show ?thesis
    by (simp add: expand_def split: sum.splits prod.splits)
qed

lemma dfs_body_agree:
  assumes ok: "call_ok self target call'"
    and inv: "visited st = set (path_ids self (current_path st))"
    and agree: "\<And>c f t. visited t = insert (station_id (heap self ! current)) (visited st)
                    \<and> current_path t = current_path st @ [(current, is_transfer)]
                  \<Longrightarrow> call c f t = call' c f t"
  shows "dfs_body call self current target is_transfer st
           = dfs_body call' self current target is_transfer st"
proof -
  define st1 where "st1 = st\<lparr>visited := insert (station_id (heap self ! current)) (visited st),
                               current_path := current_path st @ [(current, is_transfer)]\<rparr>"
  have inv1: "visited st1 = set (path_ids self (current_path st1))"
    by (simp add: st1_def inv path_ids_def)
  have "expand call self (heap self ! current) (heap self ! target) st1
          = expand call' self (heap self ! current) (heap self ! target) st1"
  proof (rule expand_agree [OF ok inv1])
    fix c f and t :: search_state
    assume "visited t = visited st1 \<and> current_path t = current_path st1"
    then show "call c f t = call' c f t" by (intro agree) (simp add: st1_def)
  qed
  then show ?thesis by (simp add: dfs_body_def Let_def st1_def)
qed

text \<open>
  Claim C9. On a loaded network \<open>find_route\<close> returns (a list of paths, or an error it
  raised) as soon as the depth allowed is the number of distinct ids of the rows: the
  nesting of the calls of \<open>dfs\<close> never exceeds that number. When moreover every
  transfer id of the rows is the id of a row and the two lines of the query are lines
  of rows, what it returns is a list of paths. More generally a call of \<open>dfs\<close> on an
  unvisited stop returns within a depth that is the number of ids not yet visited.
  The reason is in the last three parts. A call of \<open>dfs\<close> on a stop whose id is visited
  returns at once with the state unchanged. A call on a stop whose id is not visited
  adds that id to \<open>visited\<close> and the stop to \<open>current_path\<close>, runs the rest of its body
  in that state with one level of depth less, and backtracks. And every nested call
  it makes starts in a state where \<open>visited\<close> is the set of the caller with that id
  added.
\<close>

theorem find_route_terminates:
  "(card (set (map fst rows)) \<le> depth \<longrightarrow>
      (\<exists>outcome. find_route depth (load_from_csv SubwaySystem_init rows)
                   start_line start_station end_line end_station = Some outcome))
   \<and> (card (set (map fst rows)) \<le> depth
        \<and> (\<forall>r \<in> set rows. \<forall>transfer_id \<in> set (snd (snd (snd r))). transfer_id \<in> fst ` set rows)
        \<and> start_line \<in> (\<lambda>r. fst (snd r)) ` set rows
        \<and> end_line \<in> (\<lambda>r. fst (snd r)) ` set rows \<longrightarrow>
      (\<exists>paths. find_route depth (load_from_csv SubwaySystem_init rows)
                 start_line start_station end_line end_station = Some (Inr paths)))
   \<and> (current < length rows
        \<and> visited st = set (path_ids (load_from_csv SubwaySystem_init rows) (current_path st))
        \<and> visited st \<subseteq> set (map fst rows)
        \<and> station_id (heap (load_from_csv SubwaySystem_init rows) ! current) \<notin> visited st
        \<and> card (set (map fst rows) - visited st) \<le> k \<longrightarrow>
      dfs k (load_from_csv SubwaySystem_init rows) current target is_transfer st \<noteq> None)
   \<and> (station_id (heap self ! current) \<in> visited st \<longrightarrow>
         dfs (Suc n) self current target is_transfer st = Some (Inr st))
   \<and> (station_id (heap self ! current) \<notin> visited st \<longrightarrow>
         dfs (Suc n) self current target is_transfer st =
           and_then
             (if station_id (heap self ! current) = station_id (heap self ! target)
              then Some (Inr (accept self
                     (st\<lparr>visited := insert (station_id (heap self ! current)) (visited st),
                         current_path := current_path st @ [(current, is_transfer)]\<rparr>)))
              else expand (\<lambda>c. dfs n self c target) self (heap self ! current) (heap self ! target)
                     (st\<lparr>visited := insert (station_id (heap self ! current)) (visited st),
                         current_path := current_path st @ [(current, is_transfer)]\<rparr>))
             (\<lambda>st2. Some (backtrack (heap self ! current) st2)))
   \<and> (visited st = set (path_ids self (current_path st))
        \<and> (\<forall>c f t. visited t = insert (station_id (heap self ! current)) (visited st)
                     \<and> current_path t = current_path st @ [(current, is_transfer)]
                   \<longrightarrow> call c f t = dfs n self c target f t) \<longrightarrow>
         dfs_body call self current target is_transfer st
           = dfs (Suc n) self current target is_transfer st)"
proof (intro conjI impI)
  assume "card (set (map fst rows)) \<le> depth"
  with find_route_returns [OF well_formed_load, of rows depth]
  show "\<exists>outcome. find_route depth (load_from_csv SubwaySystem_init rows)
                   start_line start_station end_line end_station = Some outcome"
    by (simp add: all_ids_load)
next
  assume "card (set (map fst rows)) \<le> depth
        \<and> (\<forall>r \<in> set rows. \<forall>transfer_id \<in> set (snd (snd (snd r))). transfer_id \<in> fst ` set rows)
        \<and> start_line \<in> (\<lambda>r. fst (snd r)) ` set rows
        \<and> end_line \<in> (\<lambda>r. fst (snd r)) ` set rows"
  then show "\<exists>paths. find_route depth (load_from_csv SubwaySystem_init rows)
                 start_line start_station end_line end_station = Some (Inr paths)"
    by (intro find_route_returns_paths) (simp_all add: row_line_def [abs_def])
next
  let ?g = "load_from_csv SubwaySystem_init rows"
  assume a: "current < length rows
        \<and> visited st = set (path_ids ?g (current_path st))
        \<and> visited st \<subseteq> set (map fst rows)
        \<and> station_id (heap ?g ! current) \<notin> visited st
        \<and> card (set (map fst rows) - visited st) \<le> k"
  from a have a1: "current < length rows"
    and 2: "visited st = set (path_ids ?g (current_path st))"
    and a3: "visited st \<subseteq> set (map fst rows)"
    and 4: "station_id (heap ?g ! current) \<notin> visited st"
    and a5: "card (set (map fst rows) - visited st) \<le> k"
    by blast+
  from a1 have 1: "current < length (heap ?g)" unfolding load_from_csv_length .
  from a3 have 3: "visited st \<subseteq> all_ids ?g" unfolding all_ids_load .
  from a5 have 5: "card (all_ids ?g - visited st) \<le> k" unfolding all_ids_load .
  from call_returnsD [OF dfs_returns [OF well_formed_load] 1 2 3 4 5]
  show "dfs k ?g current target is_transfer st \<noteq> None" .
next
  assume "station_id (heap self ! current) \<in> visited st"
  then show "dfs (Suc n) self current target is_transfer st = Some (Inr st)"
    by (simp add: dfs_body_def)
next
  assume "station_id (heap self ! current) \<notin> visited st"
  then show "dfs (Suc n) self current target is_transfer st =
           and_then
             (if station_id (heap self ! current) = station_id (heap self ! target)
              then Some (Inr (accept self
                     (st\<lparr>visited := insert (station_id (heap self ! current)) (visited st),
                         current_path := current_path st @ [(current, is_transfer)]\<rparr>)))
              else expand (\<lambda>c. dfs n self c target) self (heap self ! current) (heap self ! target)
                     (st\<lparr>visited := insert (station_id (heap self ! current)) (visited st),
                         current_path := current_path st @ [(current, is_transfer)]\<rparr>))
             (\<lambda>st2. Some (backtrack (heap self ! current) st2))"
    by (simp add: dfs_body_def Let_def)
next
  assume a: "visited st = set (path_ids self (current_path st))
        \<and> (\<forall>c f t. visited t = insert (station_id (heap self ! current)) (visited st)
                     \<and> current_path t = current_path st @ [(current, is_transfer)]
                   \<longrightarrow> call c f t = dfs n self c target f t)"
  have "dfs_body call self current target is_transfer st
          = dfs_body (\<lambda>c. dfs n self c target) self current target is_transfer st"
    by (rule dfs_body_agree [OF dfs_ok]) (use a in simp_all)
  then show "dfs_body call self current target is_transfer st
           = dfs (Suc n) self current target is_transfer st"
    by simp
qed

theorem find_route_terminates_witness:
  "card (set (map fst scenario_rows)) \<le> 5
   \<and> set (concat (map (\<lambda>r. snd (snd (snd r))) scenario_rows)) \<subseteq> fst ` set scenario_rows
   \<and> ''A'' \<in> (\<lambda>r. fst (snd r)) ` set scenario_rows
   \<and> ''B'' \<in> (\<lambda>r. fst (snd r)) ` set scenario_rows
   \<and> (\<exists>paths. find_route 5 scenario ''A'' ''X'' ''B'' ''W'' = Some (Inr paths))
   \<and> (0::nat) < length scenario_rows
   \<and> visited initial_state = set (path_ids scenario (current_path initial_state))
   \<and> station_id (heap scenario ! 0) \<notin> visited initial_state
   \<and> card (set (map fst scenario_rows) - visited initial_state) \<le> 5
   \<and> dfs 5 scenario 0 4 False initial_state \<noteq> None
   \<and> station_id (heap scenario ! 0) \<in> visited (initial_state\<lparr>visited := {1}\<rparr>)
   \<and> dfs (Suc 0) scenario 0 2 False (initial_state\<lparr>visited := {1}\<rparr>)
       = Some (Inr (initial_state\<lparr>visited := {1}\<rparr>))
   \<and> dfs (Suc 2) scenario 0 2 False initial_state =
       and_then
         (expand (\<lambda>c. dfs 2 scenario c 2) scenario (heap scenario ! 0) (heap scenario ! 2)
            (initial_state\<lparr>visited := insert (station_id (heap scenario ! 0)) (visited initial_state),
                           current_path := current_path initial_state @ [(0, False)]\<rparr>))
         (\<lambda>st2. Some (backtrack (heap scenario ! 0) st2))
   \<and> dfs_body (\<lambda>c f t. if 1 \<in> visited t then dfs 2 scenario c 2 f t else None)
         scenario 0 2 False initial_state
       = dfs (Suc 2) scenario 0 2 False initial_state"
proof -
  let ?st = "initial_state\<lparr>visited := {1}\<rparr>"
  let ?call = "\<lambda>c f t. if 1 \<in> visited t then dfs 2 scenario c 2 f t else None"
  have 1: "card (set (map fst scenario_rows)) \<le> 5"
    by (simp add: scenario_rows_def card_insert_if)
  have 2: "station_id (heap scenario ! 0) \<in> visited ?st"
    by (simp add: scenario_heap)
  have 3: "\<forall>r \<in> set scenario_rows. \<forall>transfer_id \<in> set (snd (snd (snd r))).
             transfer_id \<in> fst ` set scenario_rows"
    by (simp add: scenario_rows_def)
  have 4: "''A'' \<in> (\<lambda>r. fst (snd r)) ` set scenario_rows"
    and 5: "''B'' \<in> (\<lambda>r. fst (snd r)) ` set scenario_rows"
    by (simp_all add: scenario_rows_def)
  have 6: "(0::nat) < length scenario_rows" by (simp add: scenario_rows_def)
  have 7: "visited initial_state = set (path_ids scenario (current_path initial_state))"
    by (simp add: initial_state_def path_ids_def)
  have 8: "visited initial_state \<subseteq> set (map fst scenario_rows)"
    by (simp add: initial_state_def)
  have 9: "station_id (heap scenario ! 0) \<notin> visited initial_state"
    by (simp add: initial_state_def)
  have 10: "card (set (map fst scenario_rows) - visited initial_state) \<le> 5"
    using 1 by (simp add: initial_state_def)
  have 11: "station_id (heap scenario ! 0) \<noteq> station_id (heap scenario ! 2)"
    by (simp add: scenario_heap)
  have 12: "\<forall>c f t. visited t = insert (station_id (heap scenario ! 0)) (visited initial_state)
                     \<and> current_path t = current_path initial_state @ [(0, False)]
                   \<longrightarrow> ?call c f t = dfs 2 scenario c 2 f t"
    by (simp add: scenario_heap)
  note t = find_route_terminates [of scenario_rows 5 "''A''" "''X''" "''B''" "''W''"
      0 initial_state 5 4 False scenario 0, unfolded scenario_def [symmetric]]
  note u = find_route_terminates [of scenario_rows 5 "''A''" "''X''" "''B''" "''W''"
      0 ?st 5 2 False scenario 0, unfolded scenario_def [symmetric]]
  note v = find_route_terminates [of scenario_rows 5 "''A''" "''X''" "''B''" "''W''"
      0 initial_state 5 2 False scenario 2 ?call, unfolded scenario_def [symmetric]]
  from t 1 3 4 5 have a: "\<exists>paths. find_route 5 scenario ''A'' ''X'' ''B'' ''W'' = Some (Inr paths)"
    by blast
  from t 6 7 8 9 10 have b: "dfs 5 scenario 0 4 False initial_state \<noteq> None"
    by blast
  from u 2 have c: "dfs (Suc 0) scenario 0 2 False ?st = Some (Inr ?st)"
    by blast
  from v 9 have "dfs (Suc 2) scenario 0 2 False initial_state =
       and_then
         (if station_id (heap scenario ! 0) = station_id (heap scenario ! 2)
          then Some (Inr (accept scenario
             (initial_state\<lparr>visited := insert (station_id (heap scenario ! 0)) (visited initial_state),
                            current_path := current_path initial_state @ [(0, False)]\<rparr>)))
          else expand (\<lambda>c. dfs 2 scenario c 2) scenario (heap scenario ! 0) (heap scenario ! 2)
            (initial_state\<lparr>visited := insert (station_id (heap scenario ! 0)) (visited initial_state),
                           current_path := current_path initial_state @ [(0, False)]\<rparr>))
         (\<lambda>st2. Some (backtrack (heap scenario ! 0) st2))"
    by blast
  with 11 have d: "dfs (Suc 2) scenario 0 2 False initial_state =
       and_then
         (expand (\<lambda>c. dfs 2 scenario c 2) scenario (heap scenario ! 0) (heap scenario ! 2)
            (initial_state\<lparr>visited := insert (station_id (heap scenario ! 0)) (visited initial_state),
                           current_path := current_path initial_state @ [(0, False)]\<rparr>))
         (\<lambda>st2. Some (backtrack (heap scenario ! 0) st2))"
    by (simp only: if_False)
  from v 7 12 have e: "dfs_body ?call scenario 0 2 False initial_state
       = dfs (Suc 2) scenario 0 2 False initial_state"
    by blast
  have f: "set (concat (map (\<lambda>r. snd (snd (snd r))) scenario_rows)) \<subseteq> fst ` set scenario_rows"
    by (simp add: scenario_rows_def)
  from 1 f 4 5 a 6 7 9 10 b 2 c d e show ?thesis by blast
qed

text \<open>
  Claim C8. On a loaded network, two calls of \<open>find_route\<close> with the same query return
  the same outcome, the same paths in the same order, whatever depths they are
  allowed beyond the number of distinct ids: the search starts from a state of its own
  and reads the network only.
\<close>

theorem find_route_deterministic:
  assumes "card (set (map fst rows)) \<le> depth" and "card (set (map fst rows)) \<le> depth'"
  shows "\<exists>outcome.
           find_route depth (load_from_csv SubwaySystem_init rows)
             start_line start_station end_line end_station = Some outcome
           \<and> find_route depth' (load_from_csv SubwaySystem_init rows)
               start_line start_station end_line end_station = Some outcome"
proof -
  let ?g = "load_from_csv SubwaySystem_init rows"
  let ?n = "card (set (map fst rows))"
  from find_route_returns [OF well_formed_load, of rows ?n start_line start_station end_line end_station]
  obtain outcome where "find_route ?n ?g start_line start_station end_line end_station = Some outcome"
    by (auto simp: all_ids_load)
  from find_route_mono [OF this assms(1)] find_route_mono [OF this assms(2)]
  show ?thesis by blast
qed

theorem find_route_deterministic_witness:
  "card (set (map fst scenario_rows)) \<le> 5 \<and> card (set (map fst scenario_rows)) \<le> 7
   \<and> (\<exists>outcome. find_route 5 scenario ''B'' ''W'' ''A'' ''Z'' = Some outcome
          \<and> find_route 7 scenario ''B'' ''W'' ''A'' ''Z'' = Some outcome)"
proof -
  have "card (set (map fst scenario_rows)) \<le> 5" "card (set (map fst scenario_rows)) \<le> 7"
    by (simp_all add: scenario_rows_def card_insert_if)
  with find_route_deterministic [of scenario_rows 5 7 "''B''" "''W''" "''A''" "''Z''"]
  show ?thesis unfolding scenario_def [symmetric] by simp
qed

end
